theory Spec2Isabelle
  imports Complex_Main "HOL-Library.Word" "HOL-Library.Signed_Division"
begin

section \<open>Quadtree image compression: region statistics\<close>

text \<open>
  The program is \<^verbatim>\<open>quadtree_compression.cpp\<close>. OpenCV types and primitives
  (\<^verbatim>\<open>Mat\<close>, \<^verbatim>\<open>Rect\<close>, \<^verbatim>\<open>Vec3b\<close>, \<^verbatim>\<open>mean\<close>, \<^verbatim>\<open>split\<close>, \<^verbatim>\<open>calcHist\<close>, \<^verbatim>\<open>rectangle\<close>)
  are library code; they are modelled by their documented behaviour.

  Conventions of the embedding:
  \<^item> C++ \<^verbatim>\<open>int\<close> in \<^verbatim>\<open>weighted_average\<close> is \<open>32 word\<close>, read with \<open>sint\<close>, so that
    \<^verbatim>\<open>total += hist[i]\<close> and \<^verbatim>\<open>i * hist[i]\<close> wrap around;
  \<^item> the bins of \<^verbatim>\<open>calcHist\<close> are of type \<^verbatim>\<open>CV_32F\<close>; \<^verbatim>\<open>(int *)hist.data\<close> reads the bit
    patterns of these floats;
  \<^item> C++ \<^verbatim>\<open>double\<close> is idealised as \<open>real\<close> (no rounding);
  \<^item> coordinates, sizes and depths are \<open>int\<close>; they stay far below the 32-bit range
    (they are bounded by the image size and by \<^verbatim>\<open>MAX_DEPTH\<close>);
  \<^item> \<^verbatim>\<open>uchar\<close> is \<open>8 word\<close>.
\<close>

definition MAX_DEPTH :: int where
  "MAX_DEPTH = 8"

definition DETAIL_THRESHOLD :: int where
  "DETAIL_THRESHOLD = 13"

subsection \<open>Pixels and images\<close>

text \<open>A \<^verbatim>\<open>Vec3b\<close> holds the three channels of a pixel in the order B, G, R.\<close>

datatype Vec3b = Vec3b (ch0: "8 word") (ch1: "8 word") (ch2: "8 word")

text \<open>
  A \<^verbatim>\<open>Mat\<close> of type \<^verbatim>\<open>CV_8UC3\<close>: \<open>rows\<close>, \<open>cols\<close> and the pixel at a row and a column.
\<close>

datatype Mat = Mat (rows: nat) (cols: nat) (pixel_at: "nat \<Rightarrow> nat \<Rightarrow> Vec3b")

datatype Rect = Rect (rect_x: int) (rect_y: int) (rect_width: int) (rect_height: int)

text \<open>
  What goes wrong: a null pointer is used, a pointer is deleted that \<^verbatim>\<open>new\<close> did not give,
  or the planes of an empty matrix are used (\<^verbatim>\<open>split\<close> makes none, so \<^verbatim>\<open>bgr_planes[0]\<close>
  does not exist).
\<close>

datatype error = NullDereference | InvalidDelete | EmptyRegion

text \<open>
  \<^verbatim>\<open>image(bbox)\<close>: the view of the sub-rectangle. OpenCV accepts a rectangle that lies
  inside the image (\<open>inside\<close>); \<open>bbox_inside_image\<close> below shows that every box of a tree
  that \<^verbatim>\<open>build\<close> returns does.
\<close>

definition inside :: "Mat \<Rightarrow> Rect \<Rightarrow> bool" where
  "inside img r \<longleftrightarrow>
     0 \<le> rect_x r \<and> 0 \<le> rect_width r \<and> rect_x r + rect_width r \<le> int (cols img) \<and>
     0 \<le> rect_y r \<and> 0 \<le> rect_height r \<and> rect_y r + rect_height r \<le> int (rows img)"

definition roi :: "Mat \<Rightarrow> Rect \<Rightarrow> Mat" where
  "roi img r =
     Mat (nat (rect_height r)) (nat (rect_width r))
       (\<lambda>i j. pixel_at img (nat (rect_y r) + i) (nat (rect_x r) + j))"

text \<open>The pixels of a matrix in row-major order.\<close>

definition pixels :: "Mat \<Rightarrow> Vec3b list" where
  "pixels m = concat (map (\<lambda>i. map (\<lambda>j. pixel_at m i j) [0..<cols m]) [0..<rows m])"

subsection \<open>\<^verbatim>\<open>average_color\<close>\<close>

text \<open>
  \<^verbatim>\<open>mean\<close> gives the per-channel arithmetic mean as a double; the cast to \<^verbatim>\<open>uchar\<close>
  truncates it. The constructor calls it after \<^verbatim>\<open>get_detail\<close>, so never on an empty
  region.
\<close>

definition mean_channel :: "8 word list \<Rightarrow> real" where
  "mean_channel vs =
     (if vs = [] then 0 else real (sum_list (map unat vs)) / real (length vs))"

definition to_uchar :: "real \<Rightarrow> 8 word" where
  "to_uchar d = word_of_int \<lfloor>d\<rfloor>"

definition average_color :: "Mat \<Rightarrow> Vec3b" where
  "average_color img =
     (let ps = pixels img in
      Vec3b (to_uchar (mean_channel (map ch0 ps)))
            (to_uchar (mean_channel (map ch1 ps)))
            (to_uchar (mean_channel (map ch2 ps))))"

subsection \<open>\<^verbatim>\<open>weighted_average\<close>\<close>

text \<open>
  The first loop accumulates \<^verbatim>\<open>total\<close> (an \<^verbatim>\<open>int\<close>) and \<^verbatim>\<open>value\<close> (a double); the product
  \<^verbatim>\<open>i * hist[i]\<close> is an \<^verbatim>\<open>int\<close> product, converted afterwards.
\<close>

definition wa_sums :: "32 word list \<Rightarrow> nat \<Rightarrow> 32 word \<times> real" where
  "wa_sums hist sz =
     fold (\<lambda>i (tot, val).
             (tot + hist ! i, val + real_of_int (sint (word_of_nat i * hist ! i))))
       [0..<sz] (0, 0)"

text \<open>The second loop accumulates the squared deviations, weighted by the bins.\<close>

definition wa_error :: "32 word list \<Rightarrow> nat \<Rightarrow> real \<Rightarrow> real" where
  "wa_error hist sz val =
     fold (\<lambda>i err. err + real_of_int (sint (hist ! i)) * (real i - val) * (real i - val))
       [0..<sz] 0"

definition weighted_average :: "32 word list \<Rightarrow> nat \<Rightarrow> real" where
  "weighted_average hist sz =
     (case wa_sums hist sz of (tot, val) \<Rightarrow>
        if 0 < sint tot then
          (let val' = val / real_of_int (sint tot) in
           sqrt (wa_error hist sz val' / real_of_int (sint tot)))
        else 0)"

subsection \<open>The bins of \<^verbatim>\<open>calcHist\<close>\<close>

text \<open>
  \<^verbatim>\<open>calcHist\<close> with 256 uniform bins over the range 0 to 256 counts, in bin \<open>i\<close>, the pixels
  whose channel value is \<open>i\<close>, and stores the count as a \<^verbatim>\<open>float\<close>. \<open>float_bits n\<close> is the
  IEEE 754 single-precision bit pattern of the count \<open>n\<close> (rounded to nearest, ties to
  even, above \<open>2^24\<close>): biased exponent \<open>ilog2 n + 127\<close> and the 23 bits after the leading
  one.
\<close>

fun ilog2 :: "nat \<Rightarrow> nat" where
  "ilog2 n = (if n < 2 then 0 else Suc (ilog2 (n div 2)))"

definition round_half_even :: "nat \<Rightarrow> nat \<Rightarrow> nat" where
  "round_half_even n s =
     (let q = n div 2 ^ s; r = n mod 2 ^ s; h = 2 ^ (s - 1)
      in if r > h \<or> (r = h \<and> odd q) then q + 1 else q)"

definition float_bits :: "nat \<Rightarrow> 32 word" where
  "float_bits n =
     (if n = 0 then 0
      else let e = ilog2 n;
               sig = (if e \<le> 23 then n * 2 ^ (23 - e) else round_half_even n (e - 23))
           in word_of_nat ((e + 126) * 2 ^ 23 + sig))"

definition bin_count :: "8 word list \<Rightarrow> nat \<Rightarrow> nat" where
  "bin_count plane i = length (filter (\<lambda>v. unat v = i) plane)"

text \<open>The histogram as \<^verbatim>\<open>(int *)hist.data\<close> reads it.\<close>

definition calcHist :: "8 word list \<Rightarrow> nat \<Rightarrow> 32 word list" where
  "calcHist plane histSize = map (\<lambda>i. float_bits (bin_count plane i)) [0..<histSize]"

subsection \<open>\<^verbatim>\<open>get_detail\<close>\<close>

text \<open>\<^verbatim>\<open>split\<close> separates the channels.\<close>

definition split_plane :: "(Vec3b \<Rightarrow> 8 word) \<Rightarrow> Mat \<Rightarrow> 8 word list" where
  "split_plane ch img = map ch (pixels img)"

text \<open>The part of \<^verbatim>\<open>get_detail\<close> after the three histograms are computed.\<close>

definition combine_details :: "32 word list \<Rightarrow> 32 word list \<Rightarrow> 32 word list \<Rightarrow> nat \<Rightarrow> real" where
  "combine_details b_hist g_hist r_hist histSize =
     (let red_detail = weighted_average r_hist histSize;
          green_detail = weighted_average g_hist histSize;
          blue_detail = weighted_average b_hist histSize
      in red_detail * 0.2989 + green_detail * 0.5870 + blue_detail * 0.1140)"

text \<open>
  For an empty matrix \<^verbatim>\<open>split\<close> leaves \<^verbatim>\<open>bgr_planes\<close> empty, and \<^verbatim>\<open>&bgr_planes[0]\<close> fails.
\<close>

definition get_detail :: "Mat \<Rightarrow> error + real" where
  "get_detail img =
     (if pixels img = [] then Inl EmptyRegion
      else
        (let histSize = 256;
             b_hist = calcHist (split_plane ch0 img) histSize;
             g_hist = calcHist (split_plane ch1 img) histSize;
             r_hist = calcHist (split_plane ch2 img) histSize
         in Inr (combine_details b_hist g_hist r_hist histSize)))"

subsection \<open>The statistic as the specification words it\<close>

text \<open>
  The count-weighted mean bin index, and the population standard deviation of the bin
  index around it, over the bins below \<open>n\<close>; 0 when the total count is 0. The counts are
  those of \<open>bin_count\<close>.
\<close>

definition hist_total :: "(nat \<Rightarrow> nat) \<Rightarrow> nat \<Rightarrow> real" where
  "hist_total count n = (\<Sum>i<n. real (count i))"

definition hist_mean :: "(nat \<Rightarrow> nat) \<Rightarrow> nat \<Rightarrow> real" where
  "hist_mean count n = (\<Sum>i<n. real i * real (count i)) / hist_total count n"

definition hist_stddev :: "(nat \<Rightarrow> nat) \<Rightarrow> nat \<Rightarrow> real" where
  "hist_stddev count n =
     (if hist_total count n = 0 then 0
      else sqrt ((\<Sum>i<n. real (count i) * (real i - hist_mean count n)\<^sup>2)
                  / hist_total count n))"

definition channel_stddev :: "(Vec3b \<Rightarrow> 8 word) \<Rightarrow> Mat \<Rightarrow> real" where
  "channel_stddev ch img = hist_stddev (bin_count (split_plane ch img)) 256"

text \<open>The detail score as the specification words it.\<close>

definition claimed_detail :: "Mat \<Rightarrow> real" where
  "claimed_detail img =
     0.2989 * channel_stddev ch0 img + 0.5870 * channel_stddev ch1 img
       + 0.1140 * channel_stddev ch2 img"

text \<open>The same deviation computed from the list of a channel's values.\<close>

definition plane_stddev :: "real list \<Rightarrow> real" where
  "plane_stddev vs =
     (if vs = [] then 0
      else sqrt ((\<Sum>v\<leftarrow>vs. (v - sum_list vs / real (length vs))\<^sup>2) / real (length vs)))"

section \<open>The quadtree\<close>

subsection \<open>\<^verbatim>\<open>Quadrant\<close>\<close>

text \<open>
  A \<^verbatim>\<open>Quadrant*\<close> is \<open>Quadrant option\<close>, \<open>None\<close> being \<^verbatim>\<open>nullptr\<close>. Every node is
  allocated by \<^verbatim>\<open>new\<close> and stored in exactly one slot, so the objects form a tree and
  the pointer structure is a datatype.
\<close>

datatype Quadrant =
  Quadrant (bbox: Rect) (depth: int) (is_leaf: bool) (children: "Quadrant option list")
    (color: Vec3b) (detail: real)

definition set_is_leaf :: "Quadrant \<Rightarrow> bool \<Rightarrow> Quadrant" where
  "set_is_leaf q b = Quadrant (bbox q) (depth q) b (children q) (color q) (detail q)"

definition set_children :: "Quadrant \<Rightarrow> Quadrant option list \<Rightarrow> Quadrant" where
  "set_children q cs = Quadrant (bbox q) (depth q) (is_leaf q) cs (color q) (detail q)"

text \<open>
  The constructor \<^verbatim>\<open>Quadrant(image, bbox, depth)\<close>: it fails when \<^verbatim>\<open>get_detail\<close> fails, that
  is on an empty region.
\<close>

definition new_Quadrant :: "Mat \<Rightarrow> Rect \<Rightarrow> int \<Rightarrow> error + Quadrant" where
  "new_Quadrant img bb d =
     (let region = roi img bb
      in case get_detail region of
           Inl e \<Rightarrow> Inl e
         | Inr det \<Rightarrow> Inr (Quadrant bb d False (replicate 4 None) (average_color region) det))"

text \<open>
  \<^verbatim>\<open>split_region\<close>: the division of two \<^verbatim>\<open>int\<close>s truncates (\<open>sdiv\<close>). The four children
  are constructed in order (\<open>new_children\<close>), the first failure ends it; the vector has
  four slots and every one is assigned.
\<close>

definition child_rects :: "Rect \<Rightarrow> Rect list" where
  "child_rects bb =
     (let middle_x = rect_x bb + rect_width bb sdiv 2;
          middle_y = rect_y bb + rect_height bb sdiv 2
      in [Rect (rect_x bb) (rect_y bb) (rect_width bb sdiv 2) (rect_height bb sdiv 2),
          Rect middle_x (rect_y bb) (rect_width bb sdiv 2) (rect_height bb sdiv 2),
          Rect (rect_x bb) middle_y (rect_width bb sdiv 2) (rect_height bb sdiv 2),
          Rect middle_x middle_y (rect_width bb sdiv 2) (rect_height bb sdiv 2)])"

fun new_children :: "Mat \<Rightarrow> Rect list \<Rightarrow> int \<Rightarrow> error + Quadrant option list" where
  "new_children img [] d = Inr []"
| "new_children img (r # rs) d =
     (case new_Quadrant img r d of
        Inl e \<Rightarrow> Inl e
      | Inr c \<Rightarrow>
          (case new_children img rs d of
             Inl e \<Rightarrow> Inl e
           | Inr cs \<Rightarrow> Inr (Some c # cs)))"

definition split_region :: "Mat \<Rightarrow> Quadrant \<Rightarrow> error + Quadrant" where
  "split_region img q =
     (case new_children img (child_rects (bbox q)) (depth q + 1) of
        Inl e \<Rightarrow> Inl e
      | Inr cs \<Rightarrow> Inr (set_children q cs))"

subsection \<open>\<^verbatim>\<open>QuadTree\<close>\<close>

datatype QuadTree = QuadTree (tree_root: Quadrant) (max_depth: int)

definition new_QuadTree :: "Mat \<Rightarrow> error + QuadTree" where
  "new_QuadTree img =
     (case new_Quadrant img (Rect 0 0 (int (cols img)) (int (rows img))) 0 of
        Inl e \<Rightarrow> Inl e
      | Inr q \<Rightarrow> Inr (QuadTree q 0))"

text \<open>The measure of the recursion of \<^verbatim>\<open>build\<close>: the levels left below \<^verbatim>\<open>MAX_DEPTH\<close>.\<close>

definition levels_left :: "Quadrant \<Rightarrow> nat" where
  "levels_left q = nat (MAX_DEPTH - depth q)"

primrec slots_measure :: "Quadrant option list \<Rightarrow> nat" where
  "slots_measure [] = 0"
| "slots_measure (c # cs) =
     max (case c of None \<Rightarrow> 0 | Some q \<Rightarrow> levels_left q + 1) (slots_measure cs)"

text \<open>
  \<^verbatim>\<open>build\<close> changes the node and \<^verbatim>\<open>this->max_depth\<close>; the model returns both.
  \<open>build_children\<close> is the loop over \<^verbatim>\<open>quad->children\<close>.
\<close>

function build :: "Mat \<Rightarrow> Quadrant \<Rightarrow> int \<Rightarrow> error + Quadrant \<times> int"
  and build_children ::
    "Mat \<Rightarrow> Quadrant option list \<Rightarrow> int \<Rightarrow> error + Quadrant option list \<times> int"
where
  "build img quad md =
     (if depth quad \<ge> MAX_DEPTH \<or> detail quad < real_of_int DETAIL_THRESHOLD then
        Inr (set_is_leaf quad True, if depth quad > md then depth quad else md)
      else
        (case split_region img quad of
           Inl e \<Rightarrow> Inl e
         | Inr quad' \<Rightarrow>
             (case build_children img (children quad') md of
                Inl e \<Rightarrow> Inl e
              | Inr (cs, md') \<Rightarrow> Inr (set_children quad' cs, md'))))"
| "build_children img [] md = Inr ([], md)"
| "build_children img (child # rest) md =
     (case child of
        None \<Rightarrow> Inl NullDereference
      | Some c \<Rightarrow>
          (case build img c md of
             Inl e \<Rightarrow> Inl e
           | Inr (c', md1) \<Rightarrow>
               (case build_children img rest md1 of
                  Inl e \<Rightarrow> Inl e
                | Inr (rest', md2) \<Rightarrow> Inr (Some c' # rest', md2))))"
  by pat_completeness auto
termination
proof (relation "measures
    [\<lambda>a. case a of Inl (_, q, _) \<Rightarrow> levels_left q + 1 | Inr (_, cs, _) \<Rightarrow> slots_measure cs,
     \<lambda>a. case a of Inl _ \<Rightarrow> 0 | Inr (_, cs, _) \<Rightarrow> length cs + 1]", goal_cases)
  case 1
  show ?case by simp
next
  case (2 img quad md quad')
  then show ?case
    by (auto simp: split_region_def set_children_def child_rects_def levels_left_def Let_def
        MAX_DEPTH_def new_Quadrant_def split: sum.splits)
next
  case (3 img child rest md c)
  then show ?case by auto
next
  case (4 img child rest md c x y md1)
  then show ?case by auto
qed

text \<open>\<^verbatim>\<open>QuadTree t(image); t.build(t.root, image);\<close>\<close>

definition build_root :: "Mat \<Rightarrow> error + QuadTree" where
  "build_root img =
     (case new_QuadTree img of
        Inl e \<Rightarrow> Inl e
      | Inr t \<Rightarrow>
          (case build img (tree_root t) (max_depth t) of
             Inl e \<Rightarrow> Inl e
           | Inr (q, md) \<Rightarrow> Inr (QuadTree q md)))"

subsection \<open>The nodes of a tree\<close>

text \<open>All the nodes reachable from a node, itself first, through the non-null slots.\<close>

fun nodes :: "Quadrant \<Rightarrow> Quadrant list" where
  "nodes (Quadrant bb d l cs col det) =
     Quadrant bb d l cs col det
       # concat (map (\<lambda>c. case c of None \<Rightarrow> [] | Some q \<Rightarrow> nodes q) cs)"

subsection \<open>Rendering\<close>

text \<open>
  \<^verbatim>\<open>rectangle\<close> with \<^verbatim>\<open>FILLED\<close> paints every pixel of the rectangle, with thickness 1 the
  pixels of its border. A pixel at column \<open>px\<close> and row \<open>py\<close> is in a rectangle as
  \<^verbatim>\<open>Rect::contains\<close> says.
\<close>

definition in_rect :: "Rect \<Rightarrow> int \<Rightarrow> int \<Rightarrow> bool" where
  "in_rect r px py \<longleftrightarrow>
     rect_x r \<le> px \<and> px < rect_x r + rect_width r \<and>
     rect_y r \<le> py \<and> py < rect_y r + rect_height r"

definition on_border :: "Rect \<Rightarrow> int \<Rightarrow> int \<Rightarrow> bool" where
  "on_border r px py \<longleftrightarrow>
     in_rect r px py \<and>
     (px = rect_x r \<or> px = rect_x r + rect_width r - 1 \<or>
      py = rect_y r \<or> py = rect_y r + rect_height r - 1)"

definition rectangle_filled :: "Mat \<Rightarrow> Rect \<Rightarrow> Vec3b \<Rightarrow> Mat" where
  "rectangle_filled img r c =
     Mat (rows img) (cols img)
       (\<lambda>i j. if in_rect r (int j) (int i) then c else pixel_at img i j)"

definition rectangle_lines :: "Mat \<Rightarrow> Rect \<Rightarrow> Vec3b \<Rightarrow> Mat" where
  "rectangle_lines img r c =
     Mat (rows img) (cols img)
       (\<lambda>i j. if on_border r (int j) (int i) then c else pixel_at img i j)"

definition zeros :: "nat \<Rightarrow> nat \<Rightarrow> Mat" where
  "zeros h w = Mat h w (\<lambda>i j. Vec3b 0 0 0)"

text \<open>
  \<open>draw_block\<close> is the branch of \<^verbatim>\<open>draw_quadrants\<close> that fills the box of a node with its
  colour and, with \<^verbatim>\<open>show_lines\<close>, draws the black outline over it.

  \<^verbatim>\<open>draw_quadrants\<close>: its parameter \<^verbatim>\<open>depth\<close> is \<open>target\<close> here. In
  \<^verbatim>\<open>quad->is_leaf == depth\<close> the \<^verbatim>\<open>bool\<close> is promoted to \<^verbatim>\<open>int\<close>. \<open>draw_children\<close> is
  the loop over \<^verbatim>\<open>quad->children\<close>, which calls \<^verbatim>\<open>draw_quadrants\<close> under \<^verbatim>\<open>if (!child)\<close>.
\<close>

definition draw_block :: "Mat \<Rightarrow> Quadrant \<Rightarrow> bool \<Rightarrow> Mat" where
  "draw_block img quad show_lines =
     (let img1 = rectangle_filled img (bbox quad) (color quad)
      in if show_lines then rectangle_lines img1 (bbox quad) (Vec3b 0 0 0) else img1)"

function draw_quadrants :: "Mat \<Rightarrow> Quadrant option \<Rightarrow> int \<Rightarrow> bool \<Rightarrow> error + Mat"
  and draw_children :: "Mat \<Rightarrow> Quadrant option list \<Rightarrow> int \<Rightarrow> bool \<Rightarrow> error + Mat"
where
  "draw_quadrants img None target show_lines = Inl NullDereference"
| "draw_quadrants img (Some quad) target show_lines =
     (if of_bool (is_leaf quad) = target \<or> is_leaf quad then
        Inr (draw_block img quad show_lines)
      else draw_children img (children quad) target show_lines)"
| "draw_children img [] target show_lines = Inr img"
| "draw_children img (child # rest) target show_lines =
     (if child = None then
        (case draw_quadrants img child target show_lines of
           Inl e \<Rightarrow> Inl e
         | Inr img1 \<Rightarrow> draw_children img1 rest target show_lines)
      else draw_children img rest target show_lines)"
  by pat_completeness auto
termination
  by (relation "measure
        (\<lambda>a. case a of
                Inl (_, None, _, _) \<Rightarrow> 0
              | Inl (_, Some q, _, _) \<Rightarrow> length (children q) + 2
              | Inr (_, cs, _, _) \<Rightarrow> length cs + 1)") auto

definition create_image :: "QuadTree \<Rightarrow> int \<Rightarrow> bool \<Rightarrow> error + Mat" where
  "create_image t target show_lines =
     (let img = zeros (nat (rect_height (bbox (tree_root t))))
                      (nat (rect_width (bbox (tree_root t))))
      in draw_quadrants img (Some (tree_root t)) target show_lines)"

text \<open>
  The traversal as the specification words it: a node is filled when it is a leaf or its
  depth is the target depth; otherwise the traversal goes into all its children.
\<close>

fun claimed_draw :: "Mat \<Rightarrow> Quadrant \<Rightarrow> int \<Rightarrow> bool \<Rightarrow> Mat" where
  "claimed_draw img (Quadrant bb d l cs col det) target show_lines =
     (if l \<or> d = target then draw_block img (Quadrant bb d l cs col det) show_lines
      else fold (\<lambda>c acc. case c of None \<Rightarrow> acc
                              | Some q \<Rightarrow> claimed_draw acc q target show_lines) cs img)"

subsection \<open>Teardown\<close>

text \<open>
  \<^verbatim>\<open>free_quadtree\<close> returns the nodes it has released. Under \<^verbatim>\<open>if (!child)\<close> it calls
  itself on the null \<^verbatim>\<open>child\<close> and then deletes \<^verbatim>\<open>&child\<close>, the address of the slot, which
  \<^verbatim>\<open>new\<close> did not give. \<open>free_children\<close> is the loop over \<^verbatim>\<open>quad->children\<close>.
\<close>

function free_quadtree :: "Quadrant option \<Rightarrow> error + Quadrant list"
  and free_children :: "Quadrant option list \<Rightarrow> error + Quadrant list"
where
  "free_quadtree None = Inl NullDereference"
| "free_quadtree (Some quad) = free_children (children quad)"
| "free_children [] = Inr []"
| "free_children (child # rest) =
     (if child = None then
        (case free_quadtree child of
           Inl e \<Rightarrow> Inl e
         | Inr released \<Rightarrow> Inl InvalidDelete)
      else free_children rest)"
  by pat_completeness auto
termination
  by (relation "measure
        (\<lambda>a. case a of
                Inl None \<Rightarrow> 0
              | Inl (Some q) \<Rightarrow> length (children q) + 2
              | Inr cs \<Rightarrow> length cs + 1)") auto

text \<open>The destructor \<^verbatim>\<open>~QuadTree\<close>.\<close>

definition destroy_QuadTree :: "QuadTree \<Rightarrow> error + Quadrant list" where
  "destroy_QuadTree t = free_quadtree (Some (tree_root t))"

subsection \<open>Notions for the properties of \<^verbatim>\<open>build\<close>\<close>

text \<open>The depths of the leaves of a tree.\<close>

definition leaf_depths :: "Quadrant \<Rightarrow> int list" where
  "leaf_depths t = map depth (filter is_leaf (nodes t))"

text \<open>A node as the constructor leaves it: not a leaf, every slot null.\<close>

definition fresh :: "Quadrant \<Rightarrow> bool" where
  "fresh q \<longleftrightarrow> \<not> is_leaf q \<and> children q = [None, None, None, None]"

definition is_new :: "Mat \<Rightarrow> Quadrant \<Rightarrow> bool" where
  "is_new img q \<longleftrightarrow> new_Quadrant img (bbox q) (depth q) = Inr q"

text \<open>
  \<open>T\<close> is what a call of \<^verbatim>\<open>build\<close> makes of the node that the constructor gives for the
  box \<open>r\<close> at depth \<open>d\<close>.
\<close>

definition build_makes :: "Mat \<Rightarrow> Rect \<Rightarrow> int \<Rightarrow> Quadrant \<Rightarrow> bool" where
  "build_makes img r d T \<longleftrightarrow>
     (\<exists>q md md'. new_Quadrant img r d = Inr q \<and> build img q md = Inr (T, md'))"

subsection \<open>Geometry of a split\<close>

definition rect_pixels :: "Rect \<Rightarrow> (int \<times> int) set" where
  "rect_pixels r = {(px, py). in_rect r px py}"

text \<open>The last column of a rectangle of odd width and the last row of one of odd height.\<close>

definition odd_remainder :: "Rect \<Rightarrow> (int \<times> int) set" where
  "odd_remainder r =
     {(px, py). in_rect r px py \<and>
        (odd (rect_width r) \<and> px = rect_x r + rect_width r - 1 \<or>
         odd (rect_height r) \<and> py = rect_y r + rect_height r - 1)}"

text \<open>
  Four boxes quarter a box: they are pairwise disjoint, each has half the width and half
  the height (rounded down), they lie in the box and miss exactly its odd remainder.
\<close>

definition quarters :: "Rect \<Rightarrow> Rect list \<Rightarrow> bool" where
  "quarters p rs \<longleftrightarrow>
     length rs = 4 \<and>
     (\<forall>i<4. \<forall>j<4. i \<noteq> j \<longrightarrow> rect_pixels (rs ! i) \<inter> rect_pixels (rs ! j) = {}) \<and>
     (\<forall>r \<in> set rs. rect_width r = rect_width p div 2 \<and> rect_height r = rect_height p div 2) \<and>
     (\<Union>r \<in> set rs. rect_pixels r) \<subseteq> rect_pixels p \<and>
     rect_pixels p - (\<Union>r \<in> set rs. rect_pixels r) = odd_remainder p"

section \<open>Example images\<close>

text \<open>Nodes written out: as the constructor leaves them, and as \<^verbatim>\<open>build\<close> leaves a leaf.\<close>

definition fresh_node :: "Rect \<Rightarrow> int \<Rightarrow> Vec3b \<Rightarrow> real \<Rightarrow> Quadrant" where
  "fresh_node bb d c det = Quadrant bb d False [None, None, None, None] c det"

definition leaf_node :: "Rect \<Rightarrow> int \<Rightarrow> Vec3b \<Rightarrow> real \<Rightarrow> Quadrant" where
  "leaf_node bb d c det = Quadrant bb d True [None, None, None, None] c det"

text \<open>
  A 2 by 2 image whose pixels all have the value 14 in every channel. The bin 14 of each
  histogram holds the float 4.0, read as the int 1082130432; the product
  \<^verbatim>\<open>14 * 1082130432\<close> wraps to -2030043136, so each channel gives 14 + 242/129 = 2048/129
  and the detail is above the threshold. For one pixel the bin holds 1.0, read as
  1065353216, each channel gives 14 - 242/127 = 1536/127, and the detail is below it.
\<close>

definition img_uniform14 :: Mat where
  "img_uniform14 = Mat 2 2 (\<lambda>i j. Vec3b 14 14 14)"

definition detail_four_14 :: real where
  "detail_four_14 = 2048 / 129 * 0.9999"

definition detail_one_14 :: real where
  "detail_one_14 = 1536 / 127 * 0.9999"

text \<open>The tree \<^verbatim>\<open>build\<close> makes of it (\<open>build_root_uniform14\<close> below).\<close>

definition uniform14_tree :: QuadTree where
  "uniform14_tree =
     QuadTree
       (Quadrant (Rect 0 0 2 2) 0 False
          [Some (leaf_node (Rect 0 0 1 1) 1 (Vec3b 14 14 14) detail_one_14),
           Some (leaf_node (Rect 1 0 1 1) 1 (Vec3b 14 14 14) detail_one_14),
           Some (leaf_node (Rect 0 1 1 1) 1 (Vec3b 14 14 14) detail_one_14),
           Some (leaf_node (Rect 1 1 1 1) 1 (Vec3b 14 14 14) detail_one_14)]
          (Vec3b 14 14 14) detail_four_14)
       1"

text \<open>
  One pixel of colour (255, 0, 0). Channel 0 gives 255 - 129/127 = 32256/127, the other
  channels 0.
\<close>

definition img_blue_pixel :: Mat where
  "img_blue_pixel = Mat 1 1 (\<lambda>i j. Vec3b 255 0 0)"

definition detail_blue_pixel :: real where
  "detail_blue_pixel = 32256 / 127 * 0.1140"

definition blue_pixel_root :: Quadrant where
  "blue_pixel_root = fresh_node (Rect 0 0 1 1) 0 (Vec3b 255 0 0) detail_blue_pixel"

text \<open>One black pixel: its detail is 0 and the root is a leaf.\<close>

definition img_black_pixel :: Mat where
  "img_black_pixel = Mat 1 1 (\<lambda>i j. Vec3b 0 0 0)"

definition black_pixel_tree :: QuadTree where
  "black_pixel_tree = QuadTree (leaf_node (Rect 0 0 1 1) 0 (Vec3b 0 0 0) 0) 0"

section \<open>Properties of the region statistics\<close>

lemma wa_sums_fst: "fst (wa_sums hist sz) = sum (\<lambda>i. hist ! i) {..<sz}"
  unfolding wa_sums_def
  by (induction sz) (simp_all add: case_prod_beta)

lemma wa_sums_snd:
  "snd (wa_sums hist sz) = sum (\<lambda>i. real_of_int (sint (word_of_nat i * hist ! i))) {..<sz}"
  unfolding wa_sums_def
  by (induction sz) (simp_all add: case_prod_beta)

lemma wa_error_sum:
  "wa_error hist sz v =
     sum (\<lambda>i. real_of_int (sint (hist ! i)) * (real i - v) * (real i - v)) {..<sz}"
  unfolding wa_error_def
  by (induction sz) simp_all

lemma weighted_average_zero:
  assumes "(\<Sum>i < sz. sint (hist ! i)) = 0"
  shows "weighted_average hist sz = 0"
proof -
  have "fst (wa_sums hist sz) = word_of_int (\<Sum>i < sz. sint (hist ! i))"
    unfolding wa_sums_fst by simp
  then have "sint (fst (wa_sums hist sz)) = 0"
    using assms by simp
  then show ?thesis
    by (simp add: weighted_average_def case_prod_beta)
qed

declare ilog2.simps [simp del]

lemma ilog2_small [simp]: "n < 2 \<Longrightarrow> ilog2 n = 0"
  by (subst ilog2.simps) simp

lemma ilog2_step: "2 \<le> n \<Longrightarrow> ilog2 n = Suc (ilog2 (n div 2))"
  by (subst ilog2.simps) simp

lemma float_bits_0 [simp]: "float_bits 0 = 0"
  by (simp add: float_bits_def)

lemma float_bits_1: "float_bits 1 = 1065353216"
  by (simp add: float_bits_def)

lemma float_bits_2: "float_bits 2 = 1073741824"
  by (simp add: float_bits_def ilog2_step)

lemma float_bits_4: "float_bits 4 = 1082130432"
  by (simp add: float_bits_def ilog2_step)

lemma float_bits_Suc:
  "float_bits (Suc 0) = 1065353216"
  "float_bits (Suc (Suc 0)) = 1073741824"
  "float_bits (Suc (Suc (Suc (Suc 0)))) = 1082130432"
  using float_bits_1 float_bits_2 float_bits_4 by (simp_all add: numeral_eq_Suc)

lemma calcHist_nth: "i < n \<Longrightarrow> calcHist plane n ! i = float_bits (bin_count plane i)"
  by (simp add: calcHist_def)

lemma bin_count_uniform:
  "\<forall>x \<in> set plane. x = v \<Longrightarrow> bin_count plane i = (if i = unat v then length plane else 0)"
  by (induction plane) (auto simp: bin_count_def)

lemma unat_lt_256: "unat (v :: 8 word) < 256"
  using unsigned_less[of v, where ?'a=nat] by simp

lemma calcHist_uniform:
  assumes "\<forall>x \<in> set plane. x = v" and "i < 256"
  shows "calcHist plane 256 ! i = (if i = unat v then float_bits (length plane) else 0)"
  using assms by (simp add: calcHist_nth bin_count_uniform)

text \<open>A plane of one value: only one bin is not zero.\<close>

lemma weighted_average_uniform:
  assumes u: "\<forall>x \<in> set plane. x = v"
  shows "weighted_average (calcHist plane 256) 256 =
     (if 0 < sint (float_bits (length plane)) then
        \<bar>real (unat v) - real_of_int (sint (word_of_nat (unat v) * float_bits (length plane)))
                          / real_of_int (sint (float_bits (length plane)))\<bar>
      else 0)"
proof -
  let ?b = "float_bits (length plane)"
  let ?h = "calcHist plane 256"
  have v: "unat v \<in> {..<256::nat}" using unat_lt_256[of v] by simp
  have 1: "fst (wa_sums ?h 256) = ?b"
  proof -
    have "(\<Sum>i<256. ?h ! i) = (\<Sum>i<256. if i = unat v then ?b else 0)"
      by (rule sum.cong) (simp_all add: calcHist_uniform[OF u])
    also have "\<dots> = ?b" using v by simp
    finally show ?thesis by (simp add: wa_sums_fst)
  qed
  have 2: "snd (wa_sums ?h 256) = real_of_int (sint (word_of_nat (unat v) * ?b))"
  proof -
    have "(\<Sum>i<256. real_of_int (sint (word_of_nat i * ?h ! i)))
        = (\<Sum>i<256. if i = unat v then real_of_int (sint (word_of_nat (unat v) * ?b)) else 0)"
      by (rule sum.cong) (simp_all add: calcHist_uniform[OF u])
    also have "\<dots> = real_of_int (sint (word_of_nat (unat v) * ?b))" using v by simp
    finally show ?thesis by (simp add: wa_sums_snd)
  qed
  have 3: "wa_error ?h 256 c = real_of_int (sint ?b) * (real (unat v) - c) * (real (unat v) - c)" for c
  proof -
    have "(\<Sum>i<256. real_of_int (sint (?h ! i)) * (real i - c) * (real i - c))
        = (\<Sum>i<256. if i = unat v
             then real_of_int (sint ?b) * (real (unat v) - c) * (real (unat v) - c) else 0)"
      by (rule sum.cong) (simp_all add: calcHist_uniform[OF u])
    also have "\<dots> = real_of_int (sint ?b) * (real (unat v) - c) * (real (unat v) - c)"
      using v by simp
    finally show ?thesis by (simp add: wa_error_sum)
  qed
  have w: "wa_sums ?h 256 = (?b, real_of_int (sint (word_of_nat (unat v) * ?b)))"
    using 1 2 by (simp add: prod_eq_iff)
  show ?thesis
  proof (cases "0 < sint ?b")
    case True
    then have pos: "0 < real_of_int (sint ?b)" by (simp only: of_int_0_less_iff)
    have "sqrt (real_of_int (sint ?b) * d * d / real_of_int (sint ?b)) = \<bar>d\<bar>" for d :: real
      using pos by (simp add: real_sqrt_mult_self)
    then show ?thesis using True by (simp add: weighted_average_def w 3 Let_def)
  next
    case False
    then show ?thesis by (simp add: weighted_average_def w)
  qed
qed

lemma weighted_average_one_value:
  assumes "\<forall>x \<in> set vs. x = v"
  shows "weighted_average (calcHist (v # vs) 256) 256 =
     (if 0 < sint (float_bits (Suc (length vs))) then
        \<bar>real (unat v) - real_of_int (sint (word_of_nat (unat v) * float_bits (Suc (length vs))))
                          / real_of_int (sint (float_bits (Suc (length vs))))\<bar>
      else 0)"
  using weighted_average_uniform[of "v # vs" v] assms by simp

section \<open>Properties of \<^verbatim>\<open>build\<close>\<close>

declare build.simps [simp del]

lemma sel_set_is_leaf [simp]:
  "bbox (set_is_leaf q b) = bbox q" "depth (set_is_leaf q b) = depth q"
  "is_leaf (set_is_leaf q b) = b" "children (set_is_leaf q b) = children q"
  "color (set_is_leaf q b) = color q" "detail (set_is_leaf q b) = detail q"
  by (simp_all add: set_is_leaf_def)

lemma sel_set_children [simp]:
  "bbox (set_children q cs) = bbox q" "depth (set_children q cs) = depth q"
  "is_leaf (set_children q cs) = is_leaf q" "children (set_children q cs) = cs"
  "color (set_children q cs) = color q" "detail (set_children q cs) = detail q"
  by (simp_all add: set_children_def)

lemma nodes_unfold:
  "nodes q = q # concat (map (\<lambda>c. case c of None \<Rightarrow> [] | Some q' \<Rightarrow> nodes q') (children q))"
  by (cases q) simp

lemma root_in_nodes: "q \<in> set (nodes q)"
  by (subst nodes_unfold) simp

subsection \<open>The constructor and \<^verbatim>\<open>split_region\<close>\<close>

lemma new_Quadrant_Inr:
  assumes "new_Quadrant img bb d = Inr q"
  shows "bbox q = bb" "depth q = d" "\<not> is_leaf q" "children q = [None, None, None, None]"
    "color q = average_color (roi img bb)" "get_detail (roi img bb) = Inr (detail q)"
    "pixels (roi img bb) \<noteq> []"
  using assms
  by (auto simp: new_Quadrant_def Let_def get_detail_def numeral_eq_Suc split: sum.splits if_splits)

lemma new_Quadrant_empty: "pixels (roi img bb) = [] \<Longrightarrow> new_Quadrant img bb d = Inl EmptyRegion"
  by (simp add: new_Quadrant_def get_detail_def)

lemma new_Quadrant_is_new: "new_Quadrant img bb d = Inr q \<Longrightarrow> is_new img q"
  using new_Quadrant_Inr(1,2)[of img bb d q] by (simp add: is_new_def)

lemma is_new_fresh: "is_new img q \<Longrightarrow> fresh q"
  unfolding is_new_def fresh_def using new_Quadrant_Inr(3,4) by blast

lemma is_new_detail: "is_new img q \<Longrightarrow> get_detail (roi img (bbox q)) = Inr (detail q)"
  unfolding is_new_def by (rule new_Quadrant_Inr(6))

lemma length_pixels: "length (pixels m) = rows m * cols m"
  by (simp add: pixels_def length_concat comp_def sum_list_triv)

lemma pixels_roi_empty_iff:
  "pixels (roi img r) = [] \<longleftrightarrow> rect_width r \<le> 0 \<or> rect_height r \<le> 0"
proof -
  have "pixels (roi img r) = [] \<longleftrightarrow> length (pixels (roi img r)) = 0" by simp
  also have "\<dots> \<longleftrightarrow> rect_width r \<le> 0 \<or> rect_height r \<le> 0"
    by (auto simp: length_pixels roi_def)
  finally show ?thesis .
qed

lemma is_new_size: "is_new img q \<Longrightarrow> 0 < rect_width (bbox q) \<and> 0 < rect_height (bbox q)"
  unfolding is_new_def using new_Quadrant_Inr(7)[of img "bbox q" "depth q" q]
  by (auto simp: pixels_roi_empty_iff)

lemma new_children_Inr:
  "new_children img rs d = Inr cs \<Longrightarrow>
   list_all2 (\<lambda>r c. \<exists>q. c = Some q \<and> new_Quadrant img r d = Inr q) rs cs"
  by (induction rs arbitrary: cs) (auto split: sum.splits)

lemma child_rects_length [simp]: "length (child_rects bb) = 4"
  by (simp add: child_rects_def Let_def)

lemma child_rects_list:
  "child_rects bb = [child_rects bb ! 0, child_rects bb ! 1, child_rects bb ! 2, child_rects bb ! 3]"
  by (simp add: child_rects_def Let_def)

lemma split_region_Inr:
  assumes "split_region img q = Inr q'"
  obtains c0 c1 c2 c3 where
    "q' = set_children q [Some c0, Some c1, Some c2, Some c3]"
    "new_Quadrant img (child_rects (bbox q) ! 0) (depth q + 1) = Inr c0"
    "new_Quadrant img (child_rects (bbox q) ! 1) (depth q + 1) = Inr c1"
    "new_Quadrant img (child_rects (bbox q) ! 2) (depth q + 1) = Inr c2"
    "new_Quadrant img (child_rects (bbox q) ! 3) (depth q + 1) = Inr c3"
proof -
  obtain cs where cs: "new_children img (child_rects (bbox q)) (depth q + 1) = Inr cs"
    and q': "q' = set_children q cs"
    using assms by (auto simp: split_region_def split: sum.splits)
  have "list_all2 (\<lambda>r c. \<exists>q'. c = Some q' \<and> new_Quadrant img r (depth q + 1) = Inr q')
          [child_rects (bbox q) ! 0, child_rects (bbox q) ! 1, child_rects (bbox q) ! 2,
           child_rects (bbox q) ! 3] cs"
    using new_children_Inr[OF cs] child_rects_list[of "bbox q"] by simp
  then show ?thesis
    using that q' by (auto simp: list_all2_Cons1)
qed

subsection \<open>One call of \<^verbatim>\<open>build\<close>\<close>

lemma build_leaf:
  "depth q \<ge> MAX_DEPTH \<or> detail q < real_of_int DETAIL_THRESHOLD \<Longrightarrow>
   build img q md = Inr (set_is_leaf q True, max md (depth q))"
  by (subst build.simps) (auto simp: max_def)

lemma build_split:
  assumes ns: "\<not> (depth q \<ge> MAX_DEPTH \<or> detail q < real_of_int DETAIL_THRESHOLD)"
    and b: "build img q md = Inr (T, m)"
  obtains c0 c1 c2 c3 T0 T1 T2 T3 m0 m1 m2 where
    "new_Quadrant img (child_rects (bbox q) ! 0) (depth q + 1) = Inr c0"
    "new_Quadrant img (child_rects (bbox q) ! 1) (depth q + 1) = Inr c1"
    "new_Quadrant img (child_rects (bbox q) ! 2) (depth q + 1) = Inr c2"
    "new_Quadrant img (child_rects (bbox q) ! 3) (depth q + 1) = Inr c3"
    "build img c0 md = Inr (T0, m0)" "build img c1 m0 = Inr (T1, m1)"
    "build img c2 m1 = Inr (T2, m2)" "build img c3 m2 = Inr (T3, m)"
    "T = set_children q [Some T0, Some T1, Some T2, Some T3]"
proof -
  obtain q' cs where s: "split_region img q = Inr q'"
    and bc: "build_children img (children q') md = Inr (cs, m)"
    and T: "T = set_children q' cs"
    using b ns by (subst (asm) build.simps) (auto split: sum.splits)
  obtain c0 c1 c2 c3 where q': "q' = set_children q [Some c0, Some c1, Some c2, Some c3]"
    and c: "new_Quadrant img (child_rects (bbox q) ! 0) (depth q + 1) = Inr c0"
    "new_Quadrant img (child_rects (bbox q) ! 1) (depth q + 1) = Inr c1"
    "new_Quadrant img (child_rects (bbox q) ! 2) (depth q + 1) = Inr c2"
    "new_Quadrant img (child_rects (bbox q) ! 3) (depth q + 1) = Inr c3"
    using split_region_Inr[OF s] by metis
  have bc': "build_children img [Some c0, Some c1, Some c2, Some c3] md = Inr (cs, m)"
    using bc by (simp add: q')
  then obtain T0 T1 T2 T3 m0 m1 m2 where
    "build img c0 md = Inr (T0, m0)" "build img c1 m0 = Inr (T1, m1)"
    "build img c2 m1 = Inr (T2, m2)" "build img c3 m2 = Inr (T3, m)"
    "cs = [Some T0, Some T1, Some T2, Some T3]"
    by (auto split: sum.splits)
  then show ?thesis
    using that c T q' by (simp add: set_children_def)
qed

text \<open>Induction over the calls of \<^verbatim>\<open>build\<close> that return.\<close>

lemma build_returns_induct [consumes 1, case_names leaf split]:
  assumes b: "build img q md = Inr (T, m)"
    and leaf: "\<And>q md. depth q \<ge> MAX_DEPTH \<or> detail q < real_of_int DETAIL_THRESHOLD \<Longrightarrow>
        R q md (set_is_leaf q True) (max md (depth q))"
    and split: "\<And>q md c0 c1 c2 c3 T0 T1 T2 T3 m0 m1 m2 m.
        \<not> (depth q \<ge> MAX_DEPTH \<or> detail q < real_of_int DETAIL_THRESHOLD) \<Longrightarrow>
        new_Quadrant img (child_rects (bbox q) ! 0) (depth q + 1) = Inr c0 \<Longrightarrow>
        new_Quadrant img (child_rects (bbox q) ! 1) (depth q + 1) = Inr c1 \<Longrightarrow>
        new_Quadrant img (child_rects (bbox q) ! 2) (depth q + 1) = Inr c2 \<Longrightarrow>
        new_Quadrant img (child_rects (bbox q) ! 3) (depth q + 1) = Inr c3 \<Longrightarrow>
        build img c0 md = Inr (T0, m0) \<Longrightarrow> build img c1 m0 = Inr (T1, m1) \<Longrightarrow>
        build img c2 m1 = Inr (T2, m2) \<Longrightarrow> build img c3 m2 = Inr (T3, m) \<Longrightarrow>
        build img q md = Inr (set_children q [Some T0, Some T1, Some T2, Some T3], m) \<Longrightarrow>
        R c0 md T0 m0 \<Longrightarrow> R c1 m0 T1 m1 \<Longrightarrow> R c2 m1 T2 m2 \<Longrightarrow> R c3 m2 T3 m \<Longrightarrow>
        R q md (set_children q [Some T0, Some T1, Some T2, Some T3]) m"
  shows "R q md T m"
  using b
proof (induction "levels_left q" arbitrary: q md T m rule: less_induct)
  case less
  show ?case
  proof (cases "depth q \<ge> MAX_DEPTH \<or> detail q < real_of_int DETAIL_THRESHOLD")
    case True
    then show ?thesis using less.prems leaf[OF True, of md] by (simp add: build_leaf)
  next
    case False
    obtain c0 c1 c2 c3 T0 T1 T2 T3 m0 m1 m2 where
      c: "new_Quadrant img (child_rects (bbox q) ! 0) (depth q + 1) = Inr c0"
      "new_Quadrant img (child_rects (bbox q) ! 1) (depth q + 1) = Inr c1"
      "new_Quadrant img (child_rects (bbox q) ! 2) (depth q + 1) = Inr c2"
      "new_Quadrant img (child_rects (bbox q) ! 3) (depth q + 1) = Inr c3"
      and bs: "build img c0 md = Inr (T0, m0)" "build img c1 m0 = Inr (T1, m1)"
      "build img c2 m1 = Inr (T2, m2)" "build img c3 m2 = Inr (T3, m)"
      and T: "T = set_children q [Some T0, Some T1, Some T2, Some T3]"
      using build_split[OF False less.prems] by metis
    have d: "depth c0 = depth q + 1" "depth c1 = depth q + 1" "depth c2 = depth q + 1"
      "depth c3 = depth q + 1"
      using c new_Quadrant_Inr(2) by blast+
    have lt: "levels_left c0 < levels_left q" "levels_left c1 < levels_left q"
      "levels_left c2 < levels_left q" "levels_left c3 < levels_left q"
      using False d by (simp_all add: levels_left_def)
    show ?thesis
      unfolding T
      using split[OF False c bs less.prems[unfolded T] less.hyps[OF lt(1) bs(1)] less.hyps[OF lt(2) bs(2)]
          less.hyps[OF lt(3) bs(3)] less.hyps[OF lt(4) bs(4)]] .
  qed
qed

subsection \<open>The tree a call of \<^verbatim>\<open>build\<close> returns\<close>

lemma build_keeps:
  assumes "build img q md = Inr (T, m)"
  shows "bbox T = bbox q" "depth T = depth q" "color T = color q" "detail T = detail q"
proof -
  have "bbox T = bbox q \<and> depth T = depth q \<and> color T = color q \<and> detail T = detail q"
  proof (cases "depth q \<ge> MAX_DEPTH \<or> detail q < real_of_int DETAIL_THRESHOLD")
    case True
    then show ?thesis using assms by (auto simp: build_leaf)
  next
    case False
    then show ?thesis using build_split[OF False assms] by (metis sel_set_children)
  qed
  then show "bbox T = bbox q" "depth T = depth q" "color T = color q" "detail T = detail q"
    by simp_all
qed

lemma build_is_leaf:
  assumes "build img q md = Inr (T, m)" and "fresh q"
  shows "is_leaf T \<longleftrightarrow> depth q \<ge> MAX_DEPTH \<or> detail q < real_of_int DETAIL_THRESHOLD"
proof (cases "depth q \<ge> MAX_DEPTH \<or> detail q < real_of_int DETAIL_THRESHOLD")
  case True
  then show ?thesis using assms by (auto simp: build_leaf)
next
  case False
  have "\<not> is_leaf q" using assms(2) by (simp add: fresh_def)
  then show ?thesis using False build_split[OF False assms(1)] by (metis sel_set_children(3))
qed

lemma build_children_leaf:
  assumes "build img q md = Inr (T, m)" and "fresh q" and "is_leaf T"
  shows "children T = [None, None, None, None]"
proof -
  have s: "depth q \<ge> MAX_DEPTH \<or> detail q < real_of_int DETAIL_THRESHOLD"
    using build_is_leaf[OF assms(1,2)] assms(3) by simp
  show ?thesis using assms(1,2) by (auto simp: build_leaf[OF s] fresh_def)
qed

lemma build_children_split:
  assumes b: "build img q md = Inr (T, m)" and f: "fresh q" and nl: "\<not> is_leaf T"
  obtains T0 T1 T2 T3 where
    "children T = [Some T0, Some T1, Some T2, Some T3]"
    "build_makes img (child_rects (bbox T) ! 0) (depth T + 1) T0"
    "build_makes img (child_rects (bbox T) ! 1) (depth T + 1) T1"
    "build_makes img (child_rects (bbox T) ! 2) (depth T + 1) T2"
    "build_makes img (child_rects (bbox T) ! 3) (depth T + 1) T3"
proof -
  have ns: "\<not> (depth q \<ge> MAX_DEPTH \<or> detail q < real_of_int DETAIL_THRESHOLD)"
    using build_is_leaf[OF b f] nl by simp
  obtain c0 c1 c2 c3 T0 T1 T2 T3 m0 m1 m2 where
    c: "new_Quadrant img (child_rects (bbox q) ! 0) (depth q + 1) = Inr c0"
    "new_Quadrant img (child_rects (bbox q) ! 1) (depth q + 1) = Inr c1"
    "new_Quadrant img (child_rects (bbox q) ! 2) (depth q + 1) = Inr c2"
    "new_Quadrant img (child_rects (bbox q) ! 3) (depth q + 1) = Inr c3"
    and bs: "build img c0 md = Inr (T0, m0)" "build img c1 m0 = Inr (T1, m1)"
    "build img c2 m1 = Inr (T2, m2)" "build img c3 m2 = Inr (T3, m)"
    and T: "T = set_children q [Some T0, Some T1, Some T2, Some T3]"
    using build_split[OF ns b] by metis
  have k: "bbox T = bbox q" "depth T = depth q" using build_keeps[OF b] by simp_all
  have "children T = [Some T0, Some T1, Some T2, Some T3]" by (simp add: T)
  moreover have "build_makes img (child_rects (bbox T) ! 0) (depth T + 1) T0"
    "build_makes img (child_rects (bbox T) ! 1) (depth T + 1) T1"
    "build_makes img (child_rects (bbox T) ! 2) (depth T + 1) T2"
    "build_makes img (child_rects (bbox T) ! 3) (depth T + 1) T3"
    unfolding build_makes_def k using c bs by blast+
  ultimately show ?thesis using that by blast
qed

lemma build_makes_keeps:
  assumes "build_makes img r d T"
  shows "bbox T = r" "depth T = d" "get_detail (roi img r) = Inr (detail T)"
    "color T = average_color (roi img r)" "0 < rect_width r" "0 < rect_height r"
proof -
  obtain q md md' where q: "new_Quadrant img r d = Inr q" and b: "build img q md = Inr (T, md')"
    using assms by (auto simp: build_makes_def)
  note n = new_Quadrant_Inr[OF q] and k = build_keeps[OF b]
  show "bbox T = r" "depth T = d" "get_detail (roi img r) = Inr (detail T)"
    "color T = average_color (roi img r)"
    using n k by simp_all
  show "0 < rect_width r" "0 < rect_height r"
    using n(7) by (auto simp: pixels_roi_empty_iff)
qed

subsection \<open>The leaves and \<^verbatim>\<open>max_depth\<close>\<close>

lemma leaf_depths_unfold:
  "leaf_depths t = (if is_leaf t then [depth t] else [])
     @ concat (map (\<lambda>c. case c of None \<Rightarrow> [] | Some q \<Rightarrow> leaf_depths q) (children t))"
proof -
  have "map depth (filter is_leaf (concat (map (\<lambda>c. case c of None \<Rightarrow> [] | Some q' \<Rightarrow> nodes q') cs)))
      = concat (map (\<lambda>c. case c of None \<Rightarrow> [] | Some q \<Rightarrow> leaf_depths q) cs)" for cs
    by (induction cs) (auto simp: leaf_depths_def split: option.splits)
  then show ?thesis
    by (subst leaf_depths_def, subst nodes_unfold) simp
qed

lemma leaf_depths_leaf: "fresh q \<Longrightarrow> leaf_depths (set_is_leaf q True) = [depth q]"
  by (subst leaf_depths_unfold) (simp add: fresh_def)

lemma nodes_leaf: "fresh q \<Longrightarrow> nodes (set_is_leaf q True) = [set_is_leaf q True]"
  by (subst nodes_unfold) (simp add: fresh_def)

lemma nodes_split:
  "nodes (set_children q [Some T0, Some T1, Some T2, Some T3]) =
     set_children q [Some T0, Some T1, Some T2, Some T3]
       # nodes T0 @ nodes T1 @ nodes T2 @ nodes T3"
  by (subst nodes_unfold) simp

lemma build_max_depth:
  assumes "build img q md = Inr (T, m)"
  shows "fresh q \<longrightarrow> m = fold max (leaf_depths T) md \<and> leaf_depths T \<noteq> []"
  using assms
proof (induction rule: build_returns_induct)
  case (leaf q md)
  then show ?case by (auto simp: leaf_depths_leaf max.commute)
next
  case (split q md c0 c1 c2 c3 T0 T1 T2 T3 m0 m1 m2 m)
  show ?case
  proof
    assume f: "fresh q"
    have fr: "fresh c0" "fresh c1" "fresh c2" "fresh c3"
      using split(2-5) new_Quadrant_is_new is_new_fresh by blast+
    have ld: "leaf_depths (set_children q [Some T0, Some T1, Some T2, Some T3]) =
        leaf_depths T0 @ leaf_depths T1 @ leaf_depths T2 @ leaf_depths T3"
      using f by (subst leaf_depths_unfold) (simp add: fresh_def)
    show "m = fold max (leaf_depths (set_children q [Some T0, Some T1, Some T2, Some T3])) md \<and>
        leaf_depths (set_children q [Some T0, Some T1, Some T2, Some T3]) \<noteq> []"
      unfolding ld using split(11-14) fr by simp
  qed
qed

subsection \<open>Every node is what a call of \<^verbatim>\<open>build\<close> made of a new node\<close>

lemma build_nodes:
  assumes "build img q md = Inr (T, m)"
  shows "is_new img q \<longrightarrow>
     (\<forall>n \<in> set (nodes T).
        build_makes img (bbox n) (depth n) n \<and> depth q \<le> depth n \<and>
        (depth q \<le> MAX_DEPTH \<longrightarrow> depth n \<le> MAX_DEPTH))"
  using assms
proof (induction rule: build_returns_induct)
  case (leaf q md)
  show ?case
  proof (intro impI ballI)
    fix n assume new: "is_new img q" and n: "n \<in> set (nodes (set_is_leaf q True))"
    have e: "n = set_is_leaf q True" using n nodes_leaf[OF is_new_fresh[OF new]] by simp
    have "build_makes img (bbox q) (depth q) (set_is_leaf q True)"
      unfolding build_makes_def using new build_leaf[OF leaf, of img md]
      by (auto simp: is_new_def)
    then show "build_makes img (bbox n) (depth n) n \<and> depth q \<le> depth n \<and>
        (depth q \<le> MAX_DEPTH \<longrightarrow> depth n \<le> MAX_DEPTH)"
      by (simp add: e)
  qed
next
  case (split q md c0 c1 c2 c3 T0 T1 T2 T3 m0 m1 m2 m)
  let ?T = "set_children q [Some T0, Some T1, Some T2, Some T3]"
  show ?case
  proof (intro impI ballI)
    fix n assume new: "is_new img q" and n: "n \<in> set (nodes ?T)"
    have nw: "is_new img c0" "is_new img c1" "is_new img c2" "is_new img c3"
      using split(2-5) new_Quadrant_is_new by blast+
    have d: "depth c0 = depth q + 1" "depth c1 = depth q + 1" "depth c2 = depth q + 1"
      "depth c3 = depth q + 1"
      using split(2-5) new_Quadrant_Inr(2) by blast+
    have dq: "depth q < MAX_DEPTH" using split(1) by simp
    consider "n = ?T" | "n \<in> set (nodes T0)" | "n \<in> set (nodes T1)" | "n \<in> set (nodes T2)"
      | "n \<in> set (nodes T3)"
      using n by (auto simp: nodes_split)
    then show "build_makes img (bbox n) (depth n) n \<and> depth q \<le> depth n \<and>
        (depth q \<le> MAX_DEPTH \<longrightarrow> depth n \<le> MAX_DEPTH)"
    proof cases
      case 1
      have "build_makes img (bbox q) (depth q) ?T"
        unfolding build_makes_def using new split(10) by (auto simp: is_new_def)
      then show ?thesis by (simp add: 1)
    next
      case 2
      then show ?thesis using split(11) nw(1) d(1) dq by fastforce
    next
      case 3
      then show ?thesis using split(12) nw(2) d(2) dq by fastforce
    next
      case 4
      then show ?thesis using split(13) nw(3) d(3) dq by fastforce
    next
      case 5
      then show ?thesis using split(14) nw(4) d(4) dq by fastforce
    qed
  qed
qed

subsection \<open>The tree built for an image\<close>

lemma build_root_Inr:
  assumes "build_root img = Inr t"
  obtains q where "new_Quadrant img (Rect 0 0 (int (cols img)) (int (rows img))) 0 = Inr q"
    "build img q 0 = Inr (tree_root t, max_depth t)"
  using assms
  by (auto simp: build_root_def new_QuadTree_def split: sum.splits)

text \<open>What is known of a node of the tree \<^verbatim>\<open>build\<close> returns for an image.\<close>

lemma build_root_node:
  assumes "build_root img = Inr t" and "n \<in> set (nodes (tree_root t))"
  shows "build_makes img (bbox n) (depth n) n" and "0 \<le> depth n" and "depth n \<le> MAX_DEPTH"
proof -
  obtain q where q: "new_Quadrant img (Rect 0 0 (int (cols img)) (int (rows img))) 0 = Inr q"
    and b: "build img q 0 = Inr (tree_root t, max_depth t)"
    using build_root_Inr[OF assms(1)] by blast
  have d: "depth q = 0" using new_Quadrant_Inr(2)[OF q] .
  have *: "build_makes img (bbox n) (depth n) n \<and> depth q \<le> depth n \<and>
        (depth q \<le> MAX_DEPTH \<longrightarrow> depth n \<le> MAX_DEPTH)"
    using build_nodes[OF b] new_Quadrant_is_new[OF q] assms(2) by blast
  show "build_makes img (bbox n) (depth n) n" using * by simp
  show "0 \<le> depth n" using * d by simp
  show "depth n \<le> MAX_DEPTH" using * d by (simp add: MAX_DEPTH_def)
qed

text \<open>A node that a call of \<^verbatim>\<open>build\<close> made of a new node.\<close>

lemma made_node:
  assumes "build_makes img r d n"
  obtains q md m where "is_new img q" "fresh q" "build img q md = Inr (n, m)"
    "bbox q = r" "depth q = d" "detail q = detail n" "bbox n = r" "depth n = d"
proof -
  obtain q md m where q: "new_Quadrant img r d = Inr q" and b: "build img q md = Inr (n, m)"
    using assms by (auto simp: build_makes_def)
  note n = new_Quadrant_Inr[OF q] and k = build_keeps[OF b]
  show ?thesis
    using that[OF new_Quadrant_is_new[OF q] is_new_fresh[OF new_Quadrant_is_new[OF q]] b]
      n k by simp
qed

lemma made_is_leaf:
  assumes "build_makes img r d n"
  shows "is_leaf n \<longleftrightarrow> depth n \<ge> MAX_DEPTH \<or> detail n < real_of_int DETAIL_THRESHOLD"
proof -
  obtain q md m where q: "fresh q" "build img q md = Inr (n, m)" "depth q = d"
    "detail q = detail n" "depth n = d"
    using made_node[OF assms] by metis
  show ?thesis using build_is_leaf[OF q(2) q(1)] q(3-5) by simp
qed

lemma made_children_leaf:
  assumes "build_makes img r d n" and "is_leaf n"
  shows "children n = [None, None, None, None]"
proof -
  obtain q md m where q: "fresh q" "build img q md = Inr (n, m)"
    using made_node[OF assms(1)] by metis
  show ?thesis using build_children_leaf[OF q(2) q(1) assms(2)] .
qed

lemma made_children_split:
  assumes "build_makes img r d n" and "\<not> is_leaf n"
  obtains T0 T1 T2 T3 where
    "children n = [Some T0, Some T1, Some T2, Some T3]"
    "build_makes img (child_rects (bbox n) ! 0) (depth n + 1) T0"
    "build_makes img (child_rects (bbox n) ! 1) (depth n + 1) T1"
    "build_makes img (child_rects (bbox n) ! 2) (depth n + 1) T2"
    "build_makes img (child_rects (bbox n) ! 3) (depth n + 1) T3"
proof -
  obtain q md m where q: "fresh q" "build img q md = Inr (n, m)"
    using made_node[OF assms(1)] by metis
  show ?thesis using build_children_split[OF q(2) q(1) assms(2)] that by blast
qed

section \<open>The example images\<close>

lemma sdiv_2_nonneg: "0 \<le> (w::int) \<Longrightarrow> w sdiv 2 = w div 2"
  by (simp add: signed_divide_int_def sgn_if)

lemma child_rects_nonneg:
  assumes "0 \<le> rect_width p" "0 \<le> rect_height p"
  shows "child_rects p =
    [Rect (rect_x p) (rect_y p) (rect_width p div 2) (rect_height p div 2),
     Rect (rect_x p + rect_width p div 2) (rect_y p) (rect_width p div 2) (rect_height p div 2),
     Rect (rect_x p) (rect_y p + rect_height p div 2) (rect_width p div 2) (rect_height p div 2),
     Rect (rect_x p + rect_width p div 2) (rect_y p + rect_height p div 2)
       (rect_width p div 2) (rect_height p div 2)]"
  using assms by (simp add: child_rects_def Let_def sdiv_2_nonneg)

lemma pixels_uniform14:
  "pixels (roi img_uniform14 (Rect 0 0 2 2))
     = [Vec3b 14 14 14, Vec3b 14 14 14, Vec3b 14 14 14, Vec3b 14 14 14]"
  "pixels (roi img_uniform14 (Rect 0 0 1 1)) = [Vec3b 14 14 14]"
  "pixels (roi img_uniform14 (Rect 1 0 1 1)) = [Vec3b 14 14 14]"
  "pixels (roi img_uniform14 (Rect 0 1 1 1)) = [Vec3b 14 14 14]"
  "pixels (roi img_uniform14 (Rect 1 1 1 1)) = [Vec3b 14 14 14]"
  by (simp_all add: pixels_def roi_def img_uniform14_def upt_rec)

lemma get_detail_four_14:
  "pixels m = [Vec3b 14 14 14, Vec3b 14 14 14, Vec3b 14 14 14, Vec3b 14 14 14] \<Longrightarrow>
   get_detail m = Inr detail_four_14"
  by (simp add: get_detail_def split_plane_def combine_details_def weighted_average_one_value
      float_bits_Suc detail_four_14_def)

lemma get_detail_one_14:
  "pixels m = [Vec3b 14 14 14] \<Longrightarrow> get_detail m = Inr detail_one_14"
  by (simp add: get_detail_def split_plane_def combine_details_def weighted_average_one_value
      float_bits_Suc detail_one_14_def)

lemma detail_14_threshold:
  "\<not> detail_four_14 < real_of_int DETAIL_THRESHOLD"
  "detail_one_14 < real_of_int DETAIL_THRESHOLD"
  by (simp_all add: detail_four_14_def detail_one_14_def DETAIL_THRESHOLD_def)

lemma average_color_14:
  "pixels m = [Vec3b 14 14 14, Vec3b 14 14 14, Vec3b 14 14 14, Vec3b 14 14 14] \<Longrightarrow>
   average_color m = Vec3b 14 14 14"
  "pixels m = [Vec3b 14 14 14] \<Longrightarrow> average_color m = Vec3b 14 14 14"
  by (simp_all add: average_color_def mean_channel_def to_uchar_def)

lemma new_Quadrant_uniform14:
  "new_Quadrant img_uniform14 (Rect 0 0 2 2) d =
     Inr (fresh_node (Rect 0 0 2 2) d (Vec3b 14 14 14) detail_four_14)"
  "new_Quadrant img_uniform14 (Rect 0 0 1 1) d =
     Inr (fresh_node (Rect 0 0 1 1) d (Vec3b 14 14 14) detail_one_14)"
  "new_Quadrant img_uniform14 (Rect 1 0 1 1) d =
     Inr (fresh_node (Rect 1 0 1 1) d (Vec3b 14 14 14) detail_one_14)"
  "new_Quadrant img_uniform14 (Rect 0 1 1 1) d =
     Inr (fresh_node (Rect 0 1 1 1) d (Vec3b 14 14 14) detail_one_14)"
  "new_Quadrant img_uniform14 (Rect 1 1 1 1) d =
     Inr (fresh_node (Rect 1 1 1 1) d (Vec3b 14 14 14) detail_one_14)"
  by (simp_all add: new_Quadrant_def Let_def get_detail_four_14 get_detail_one_14
      average_color_14 pixels_uniform14 numeral_eq_Suc fresh_node_def)

lemma child_rects_2x2:
  "child_rects (Rect 0 0 2 2) = [Rect 0 0 1 1, Rect 1 0 1 1, Rect 0 1 1 1, Rect 1 1 1 1]"
  by (simp add: child_rects_nonneg)

lemma build_fresh_leaf:
  "d \<ge> MAX_DEPTH \<or> det < real_of_int DETAIL_THRESHOLD \<Longrightarrow>
   build img (fresh_node bb d c det) md = Inr (leaf_node bb d c det, max md d)"
  by (subst build_leaf) (simp_all add: set_is_leaf_def leaf_node_def fresh_node_def)

lemma split_region_uniform14:
  "split_region img_uniform14 (fresh_node (Rect 0 0 2 2) 0 c det) =
     Inr (Quadrant (Rect 0 0 2 2) 0 False
           [Some (fresh_node (Rect 0 0 1 1) 1 (Vec3b 14 14 14) detail_one_14),
            Some (fresh_node (Rect 1 0 1 1) 1 (Vec3b 14 14 14) detail_one_14),
            Some (fresh_node (Rect 0 1 1 1) 1 (Vec3b 14 14 14) detail_one_14),
            Some (fresh_node (Rect 1 1 1 1) 1 (Vec3b 14 14 14) detail_one_14)] c det)"
  by (simp add: split_region_def fresh_node_def[of "Rect 0 0 2 2"] child_rects_2x2
      new_Quadrant_uniform14 set_children_def)

lemma build_uniform14:
  "build img_uniform14 (fresh_node (Rect 0 0 2 2) 0 (Vec3b 14 14 14) detail_four_14) 0
     = Inr (tree_root uniform14_tree, 1)"
proof -
  have ns: "\<not> (depth (fresh_node (Rect 0 0 2 2) 0 (Vec3b 14 14 14) detail_four_14) \<ge> MAX_DEPTH \<or>
      detail (fresh_node (Rect 0 0 2 2) 0 (Vec3b 14 14 14) detail_four_14)
        < real_of_int DETAIL_THRESHOLD)"
    using detail_14_threshold(1) by (simp add: fresh_node_def MAX_DEPTH_def)
  show ?thesis
    by (subst build.simps)
       (simp add: ns split_region_uniform14 build_fresh_leaf detail_14_threshold
         uniform14_tree_def set_children_def)
qed

lemma build_root_uniform14: "build_root img_uniform14 = Inr uniform14_tree"
proof -
  have c: "int (cols img_uniform14) = 2" "int (rows img_uniform14) = 2"
    by (simp_all add: img_uniform14_def)
  have t: "QuadTree (tree_root uniform14_tree) 1 = uniform14_tree"
    by (simp add: uniform14_tree_def)
  show ?thesis
    unfolding build_root_def new_QuadTree_def c
    by (simp add: new_Quadrant_uniform14 build_uniform14 t)
qed

lemma pixels_blue_pixel: "pixels (roi img_blue_pixel (Rect 0 0 1 1)) = [Vec3b 255 0 0]"
  by (simp add: pixels_def roi_def img_blue_pixel_def upt_rec)

lemma pixels_img_blue_pixel: "pixels img_blue_pixel = [Vec3b 255 0 0]"
  by (simp add: pixels_def img_blue_pixel_def upt_rec)

lemma get_detail_blue:
  "pixels m = [Vec3b 255 0 0] \<Longrightarrow> get_detail m = Inr detail_blue_pixel"
  by (simp add: get_detail_def split_plane_def combine_details_def weighted_average_one_value
      float_bits_Suc detail_blue_pixel_def)

lemma detail_blue_threshold: "\<not> detail_blue_pixel < real_of_int DETAIL_THRESHOLD"
  by (simp add: detail_blue_pixel_def DETAIL_THRESHOLD_def)

lemma average_color_one:
  "pixels m = [Vec3b 255 0 0] \<Longrightarrow> average_color m = Vec3b 255 0 0"
  "pixels m = [Vec3b 0 0 0] \<Longrightarrow> average_color m = Vec3b 0 0 0"
  by (simp_all add: average_color_def mean_channel_def to_uchar_def)

lemma new_Quadrant_blue_pixel:
  "new_Quadrant img_blue_pixel (Rect 0 0 1 1) d =
     Inr (fresh_node (Rect 0 0 1 1) d (Vec3b 255 0 0) detail_blue_pixel)"
  by (simp add: new_Quadrant_def Let_def get_detail_blue[OF pixels_blue_pixel]
      average_color_one(1)[OF pixels_blue_pixel] numeral_eq_Suc fresh_node_def)

lemma new_QuadTree_blue_pixel: "new_QuadTree img_blue_pixel = Inr (QuadTree blue_pixel_root 0)"
proof -
  have c: "int (cols img_blue_pixel) = 1" "int (rows img_blue_pixel) = 1"
    by (simp_all add: img_blue_pixel_def)
  show ?thesis
    unfolding new_QuadTree_def c by (simp add: new_Quadrant_blue_pixel blue_pixel_root_def)
qed

lemma child_rects_1x1:
  "child_rects (Rect 0 0 1 1) = [Rect 0 0 0 0, Rect 0 0 0 0, Rect 0 0 0 0, Rect 0 0 0 0]"
  by (simp add: child_rects_nonneg)

lemma new_Quadrant_0x0: "new_Quadrant img (Rect 0 0 0 0) d = Inl EmptyRegion"
  by (rule new_Quadrant_empty) (simp add: pixels_roi_empty_iff)

lemma build_blue_pixel: "build img_blue_pixel blue_pixel_root 0 = Inl EmptyRegion"
proof -
  have ns: "\<not> (depth blue_pixel_root \<ge> MAX_DEPTH \<or>
      detail blue_pixel_root < real_of_int DETAIL_THRESHOLD)"
    using detail_blue_threshold by (simp add: blue_pixel_root_def fresh_node_def MAX_DEPTH_def)
  have s: "split_region img_blue_pixel blue_pixel_root = Inl EmptyRegion"
    by (simp add: split_region_def blue_pixel_root_def fresh_node_def child_rects_1x1
        new_Quadrant_0x0)
  show ?thesis
    by (subst build.simps) (simp add: ns s)
qed

lemma build_root_blue_pixel: "build_root img_blue_pixel = Inl EmptyRegion"
  by (simp add: build_root_def new_QuadTree_blue_pixel build_blue_pixel)

lemma pixels_black_pixel: "pixels (roi img_black_pixel (Rect 0 0 1 1)) = [Vec3b 0 0 0]"
  by (simp add: pixels_def roi_def img_black_pixel_def upt_rec)

lemma get_detail_black: "pixels m = [Vec3b 0 0 0] \<Longrightarrow> get_detail m = Inr 0"
  by (simp add: get_detail_def split_plane_def combine_details_def weighted_average_one_value
      float_bits_Suc)

lemma build_root_black_pixel: "build_root img_black_pixel = Inr black_pixel_tree"
proof -
  have c: "int (cols img_black_pixel) = 1" "int (rows img_black_pixel) = 1"
    by (simp_all add: img_black_pixel_def)
  have n: "new_Quadrant img_black_pixel (Rect 0 0 1 1) 0 =
      Inr (fresh_node (Rect 0 0 1 1) 0 (Vec3b 0 0 0) 0)"
    by (simp add: new_Quadrant_def Let_def get_detail_black[OF pixels_black_pixel]
        average_color_one(2)[OF pixels_black_pixel] numeral_eq_Suc fresh_node_def)
  have b: "build img_black_pixel (fresh_node (Rect 0 0 1 1) 0 (Vec3b 0 0 0) 0) 0 =
      Inr (leaf_node (Rect 0 0 1 1) 0 (Vec3b 0 0 0) 0, max 0 0)"
    by (rule build_fresh_leaf) (simp add: DETAIL_THRESHOLD_def)
  show ?thesis
    unfolding build_root_def new_QuadTree_def c
    by (simp add: n b black_pixel_tree_def)
qed

subsection \<open>The detail score against the deviation of the counts\<close>

lemma sum_bin_count:
  "(\<Sum>i<256. real (bin_count plane i) * f i) = (\<Sum>v\<leftarrow>plane. f (unat v))"
proof (induction plane)
  case Nil
  then show ?case by (simp add: bin_count_def)
next
  case (Cons v vs)
  have lt: "unat v < 256" by (rule unat_lt_256)
  have "(\<Sum>i<256. real (bin_count (v # vs) i) * f i)
      = (\<Sum>i<256. (if unat v = i then f i else 0) + real (bin_count vs i) * f i)"
    by (rule sum.cong) (auto simp: bin_count_def algebra_simps)
  also have "\<dots> = (\<Sum>i<256. (if unat v = i then f i else 0))
                   + (\<Sum>i<256. real (bin_count vs i) * f i)"
    by (simp add: sum.distrib)
  also have "(\<Sum>i<256. (if unat v = i then f i else 0)) = f (unat v)"
    using lt by simp
  finally show ?case using Cons.IH by simp
qed

lemma hist_total_bin_count: "hist_total (bin_count plane) 256 = real (length plane)"
  using sum_bin_count[of plane "\<lambda>_. 1"] by (simp add: hist_total_def sum_list_triv)

lemma hist_stddev_plane:
  "hist_stddev (bin_count pl) 256 = plane_stddev (map (\<lambda>v. real (unat v)) pl)"
proof -
  have m: "(\<Sum>i<256. real i * real (bin_count pl i)) = (\<Sum>v\<leftarrow>pl. real (unat v))"
    using sum_bin_count[of pl real] by (simp add: mult.commute)
  have e: "(\<Sum>i<256. real (bin_count pl i) * (real i - c)\<^sup>2)
             = (\<Sum>v\<leftarrow>pl. (real (unat v) - c)\<^sup>2)" for c
    by (rule sum_bin_count)
  show ?thesis
    by (simp add: hist_stddev_def hist_total_bin_count hist_mean_def m e plane_stddev_def
        comp_def)
qed

lemma channel_stddev_pixels:
  "channel_stddev ch img = plane_stddev (map (\<lambda>p. real (unat (ch p))) (pixels img))"
  by (simp add: channel_stddev_def hist_stddev_plane split_plane_def comp_def)

lemma claimed_detail_one_pixel: "pixels img = [p] \<Longrightarrow> claimed_detail img = 0"
  by (simp add: claimed_detail_def channel_stddev_pixels plane_stddev_def)

text \<open>
  C8. The detail score of the region of one pixel of colour (255, 0, 0). The weighted sum
  of the three per-channel standard deviations that the claim states is 0 there, one
  value having no spread. \<^verbatim>\<open>get_detail\<close> returns 0.1140 times 32256/127, about 28.95:
  \<^verbatim>\<open>weighted_average\<close> reads the float bins as ints, and the weight on channel 0 is 0.1140.
\<close>

theorem detail_of_one_pixel:
  "get_detail img_blue_pixel = Inr (32256 / 127 * 0.1140) \<and>
   claimed_detail img_blue_pixel = 0"
  using get_detail_blue[OF pixels_img_blue_pixel]
    claimed_detail_one_pixel[OF pixels_img_blue_pixel]
  by (simp add: detail_blue_pixel_def)

section \<open>Properties of the built tree\<close>

lemma nodes_uniform14_root:
  "tree_root uniform14_tree \<in> set (nodes (tree_root uniform14_tree))"
  by (rule root_in_nodes)

lemma nodes_uniform14_leaf:
  "leaf_node (Rect 1 1 1 1) 1 (Vec3b 14 14 14) detail_one_14
     \<in> set (nodes (tree_root uniform14_tree))"
  by (simp add: uniform14_tree_def leaf_node_def)

lemma uniform14_root_facts:
  "\<not> is_leaf (tree_root uniform14_tree)" "depth (tree_root uniform14_tree) = 0"
  "bbox (tree_root uniform14_tree) = Rect 0 0 2 2"
  "detail (tree_root uniform14_tree) = detail_four_14"
  "children (tree_root uniform14_tree) =
     [Some (leaf_node (Rect 0 0 1 1) 1 (Vec3b 14 14 14) detail_one_14),
      Some (leaf_node (Rect 1 0 1 1) 1 (Vec3b 14 14 14) detail_one_14),
      Some (leaf_node (Rect 0 1 1 1) 1 (Vec3b 14 14 14) detail_one_14),
      Some (leaf_node (Rect 1 1 1 1) 1 (Vec3b 14 14 14) detail_one_14)]"
  by (simp_all add: uniform14_tree_def)

lemma leaf_node_sel [simp]:
  "bbox (leaf_node bb d c det) = bb" "depth (leaf_node bb d c det) = d"
  "is_leaf (leaf_node bb d c det)" "children (leaf_node bb d c det) = [None, None, None, None]"
  "color (leaf_node bb d c det) = c" "detail (leaf_node bb d c det) = det"
  by (simp_all add: leaf_node_def)

subsection \<open>The stop rule\<close>



subsection \<open>Leaves and child slots\<close>

text \<open>
  C10. In a tree that \<^verbatim>\<open>build\<close> returns, every node has four child slots; it is a leaf if
  and only if all of them are null, and a node that is not a leaf has no null slot.
\<close>

theorem leaf_iff_no_children:
  "build_root img = Inr t \<Longrightarrow> n \<in> set (nodes (tree_root t)) \<Longrightarrow>
     length (children n) = 4 \<and>
     (is_leaf n \<longleftrightarrow> (\<forall>c \<in> set (children n). c = None)) \<and>
     (\<not> is_leaf n \<longrightarrow> (\<forall>c \<in> set (children n). c \<noteq> None))"
proof -
  assume t: "build_root img = Inr t" and n: "n \<in> set (nodes (tree_root t))"
  note m = build_root_node(1)[OF t n]
  show ?thesis
  proof (cases "is_leaf n")
    case True
    then show ?thesis using made_children_leaf[OF m True] by simp
  next
    case False
    obtain T0 T1 T2 T3 where ch: "children n = [Some T0, Some T1, Some T2, Some T3]"
      using made_children_split[OF m False] by metis
    show ?thesis using False by (simp add: ch)
  qed
qed

theorem leaf_iff_no_children_witness:
  "build_root img_uniform14 = Inr uniform14_tree \<and>
   tree_root uniform14_tree \<in> set (nodes (tree_root uniform14_tree)) \<and>
   length (children (tree_root uniform14_tree)) = 4 \<and>
   \<not> is_leaf (tree_root uniform14_tree) \<and>
   None \<notin> set (children (tree_root uniform14_tree)) \<and>
   leaf_node (Rect 1 1 1 1) 1 (Vec3b 14 14 14) detail_one_14
     \<in> set (nodes (tree_root uniform14_tree)) \<and>
   is_leaf (leaf_node (Rect 1 1 1 1) 1 (Vec3b 14 14 14) detail_one_14) \<and>
   children (leaf_node (Rect 1 1 1 1) 1 (Vec3b 14 14 14) detail_one_14)
     = [None, None, None, None]"
  using leaf_iff_no_children[OF build_root_uniform14 nodes_uniform14_root]
    leaf_iff_no_children[OF build_root_uniform14 nodes_uniform14_leaf]
    build_root_uniform14 nodes_uniform14_root nodes_uniform14_leaf
  by (simp add: uniform14_root_facts)

subsection \<open>Depths\<close>

text \<open>
  C7. In a tree that \<^verbatim>\<open>build\<close> returns for an image, the depth of every child is the depth
  of its parent plus one, and no node, so no leaf, is deeper than \<^verbatim>\<open>MAX_DEPTH\<close>.
\<close>

theorem depth_steps_by_one:
  "build_root img = Inr t \<Longrightarrow> n \<in> set (nodes (tree_root t)) \<Longrightarrow>
     (\<forall>c. Some c \<in> set (children n) \<longrightarrow> depth c = depth n + 1) \<and>
     depth n \<le> MAX_DEPTH \<and> (is_leaf n \<longrightarrow> \<not> depth n > MAX_DEPTH)"
proof -
  assume t: "build_root img = Inr t" and n: "n \<in> set (nodes (tree_root t))"
  note m = build_root_node(1)[OF t n]
  have "depth c = depth n + 1" if c: "Some c \<in> set (children n)" for c
  proof (cases "is_leaf n")
    case True
    then show ?thesis using made_children_leaf[OF m True] c by simp
  next
    case False
    obtain T0 T1 T2 T3 where ch: "children n = [Some T0, Some T1, Some T2, Some T3]"
      and mk: "build_makes img (child_rects (bbox n) ! 0) (depth n + 1) T0"
      "build_makes img (child_rects (bbox n) ! 1) (depth n + 1) T1"
      "build_makes img (child_rects (bbox n) ! 2) (depth n + 1) T2"
      "build_makes img (child_rects (bbox n) ! 3) (depth n + 1) T3"
      using made_children_split[OF m False] by metis
    show ?thesis
      using c mk[THEN build_makes_keeps(2)] by (auto simp: ch)
  qed
  then show ?thesis using build_root_node(3)[OF t n] by auto
qed

theorem depth_steps_by_one_witness:
  "build_root img_uniform14 = Inr uniform14_tree \<and>
   tree_root uniform14_tree \<in> set (nodes (tree_root uniform14_tree)) \<and>
   Some (leaf_node (Rect 1 0 1 1) 1 (Vec3b 14 14 14) detail_one_14)
     \<in> set (children (tree_root uniform14_tree)) \<and>
   depth (leaf_node (Rect 1 0 1 1) 1 (Vec3b 14 14 14) detail_one_14)
     = depth (tree_root uniform14_tree) + 1 \<and>
   depth (tree_root uniform14_tree) \<le> MAX_DEPTH"
  using depth_steps_by_one[OF build_root_uniform14 nodes_uniform14_root]
    build_root_uniform14 nodes_uniform14_root
  by (simp add: uniform14_root_facts)

subsection \<open>\<^verbatim>\<open>max_depth\<close>\<close>

lemma fold_max_eq_Max:
  fixes xs :: "int list"
  assumes "xs \<noteq> []" and "\<forall>x \<in> set xs. m \<le> x"
  shows "fold max xs m = Max (set xs)"
proof -
  have "fold max xs m = Max (set (m # xs))"
    by (simp only: Max.set_eq_fold)
  also have "\<dots> = max m (Max (set xs))"
    using assms(1) by simp
  also have "\<dots> = Max (set xs)"
    using assms by (simp add: max_def)
  finally show ?thesis .
qed

text \<open>
  C5. When \<^verbatim>\<open>build\<close> on the root returns, \<^verbatim>\<open>max_depth\<close> is the greatest depth of a leaf of
  the tree (there is a leaf).
\<close>

theorem max_depth_is_deepest_leaf:
  "build_root img = Inr t \<Longrightarrow>
     leaf_depths (tree_root t) \<noteq> [] \<and> max_depth t = Max (set (leaf_depths (tree_root t)))"
proof -
  assume t: "build_root img = Inr t"
  obtain q where q: "new_Quadrant img (Rect 0 0 (int (cols img)) (int (rows img))) 0 = Inr q"
    and b: "build img q 0 = Inr (tree_root t, max_depth t)"
    using build_root_Inr[OF t] by blast
  have f: "fresh q" using is_new_fresh[OF new_Quadrant_is_new[OF q]] .
  have md: "max_depth t = fold max (leaf_depths (tree_root t)) 0"
    and ne: "leaf_depths (tree_root t) \<noteq> []"
    using build_max_depth[OF b] f by simp_all
  have "0 \<le> x" if x: "x \<in> set (leaf_depths (tree_root t))" for x
  proof -
    obtain n where "n \<in> set (nodes (tree_root t))" "x = depth n"
      using x by (auto simp: leaf_depths_def)
    then show ?thesis using build_root_node(2)[OF t, of n] by simp
  qed
  then have "fold max (leaf_depths (tree_root t)) 0 = Max (set (leaf_depths (tree_root t)))"
    using ne by (intro fold_max_eq_Max) auto
  then show ?thesis using md ne by simp
qed

lemma leaf_depths_uniform14: "leaf_depths (tree_root uniform14_tree) = [1, 1, 1, 1]"
  by (simp add: leaf_depths_def uniform14_tree_def leaf_node_def)

theorem max_depth_is_deepest_leaf_witness:
  "build_root img_uniform14 = Inr uniform14_tree \<and>
   leaf_depths (tree_root uniform14_tree) = [1, 1, 1, 1] \<and>
   max_depth uniform14_tree = Max (set (leaf_depths (tree_root uniform14_tree))) \<and>
   max_depth uniform14_tree = 1 \<and> max_depth uniform14_tree < MAX_DEPTH"
proof -
  have "max_depth uniform14_tree = 1" by (simp add: uniform14_tree_def)
  then show ?thesis
    using max_depth_is_deepest_leaf[OF build_root_uniform14] build_root_uniform14
      leaf_depths_uniform14
    by (simp add: MAX_DEPTH_def)
qed

subsection \<open>The four children quarter the parent\<close>

lemma quarters_halves:
  fixes x y w h a b :: int
  assumes a: "0 \<le> a" "2 * a \<le> w" "w \<le> 2 * a + 1" "odd w \<longleftrightarrow> w = 2 * a + 1"
      and b: "0 \<le> b" "2 * b \<le> h" "h \<le> 2 * b + 1" "odd h \<longleftrightarrow> h = 2 * b + 1"
      and rs: "rs = [Rect x y a b, Rect (x + a) y a b, Rect x (y + b) a b, Rect (x + a) (y + b) a b]"
  shows "(\<forall>i<4. \<forall>j<4. i \<noteq> j \<longrightarrow> rect_pixels (rs ! i) \<inter> rect_pixels (rs ! j) = {})"
    and "(\<Union>r \<in> set rs. rect_pixels r) \<subseteq> rect_pixels (Rect x y w h)"
    and "rect_pixels (Rect x y w h) - (\<Union>r \<in> set rs. rect_pixels r) = odd_remainder (Rect x y w h)"
proof -
  have ij: "i < 4 \<longleftrightarrow> i = 0 \<or> i = 1 \<or> i = 2 \<or> i = (3::nat)" for i by auto
  show "(\<forall>i<4. \<forall>j<4. i \<noteq> j \<longrightarrow> rect_pixels (rs ! i) \<inter> rect_pixels (rs ! j) = {})"
    unfolding rs ij by (auto simp: rect_pixels_def in_rect_def)
  show "(\<Union>r \<in> set rs. rect_pixels r) \<subseteq> rect_pixels (Rect x y w h)"
    unfolding rs using a b by (auto simp: rect_pixels_def in_rect_def)
  have u: "(px, py) \<in> (\<Union>r \<in> set rs. rect_pixels r) \<longleftrightarrow>
      x \<le> px \<and> px < x + 2 * a \<and> y \<le> py \<and> py < y + 2 * b" for px py
    unfolding rs using a(1) b(1) by (auto simp: rect_pixels_def in_rect_def)
  have "(px, py) \<in> rect_pixels (Rect x y w h) - (\<Union>r \<in> set rs. rect_pixels r) \<longleftrightarrow>
      (px, py) \<in> odd_remainder (Rect x y w h)" for px py
  proof -
    have l: "(px, py) \<in> rect_pixels (Rect x y w h) - (\<Union>r \<in> set rs. rect_pixels r) \<longleftrightarrow>
        (x \<le> px \<and> px < x + w \<and> y \<le> py \<and> py < y + h) \<and> \<not> (px < x + 2 * a \<and> py < y + 2 * b)"
      using u[of px py] by (auto simp: rect_pixels_def in_rect_def)
    have r: "(px, py) \<in> odd_remainder (Rect x y w h) \<longleftrightarrow>
        (x \<le> px \<and> px < x + w \<and> y \<le> py \<and> py < y + h) \<and>
        (odd w \<and> px = x + w - 1 \<or> odd h \<and> py = y + h - 1)"
      by (simp add: odd_remainder_def in_rect_def)
    show ?thesis unfolding l r using a b by auto
  qed
  then show "rect_pixels (Rect x y w h) - (\<Union>r \<in> set rs. rect_pixels r) = odd_remainder (Rect x y w h)"
    by (intro set_eqI) (metis surj_pair)
qed

lemma quarters_child_rects:
  assumes "0 \<le> rect_width p" "0 \<le> rect_height p"
  shows "quarters p (child_rects p)"
proof -
  obtain x y w h where p: "p = Rect x y w h" by (cases p)
  have w: "0 \<le> w" and h: "0 \<le> h" using assms by (simp_all add: p)
  have rs: "child_rects p = [Rect x y (w div 2) (h div 2), Rect (x + w div 2) y (w div 2) (h div 2),
       Rect x (y + h div 2) (w div 2) (h div 2), Rect (x + w div 2) (y + h div 2) (w div 2) (h div 2)]"
    using child_rects_nonneg[OF assms] by (simp add: p)
  have a: "0 \<le> w div 2" "2 * (w div 2) \<le> w" "w \<le> 2 * (w div 2) + 1"
      "odd w \<longleftrightarrow> w = 2 * (w div 2) + 1"
    using w by (auto elim: oddE)
  have b: "0 \<le> h div 2" "2 * (h div 2) \<le> h" "h \<le> 2 * (h div 2) + 1"
      "odd h \<longleftrightarrow> h = 2 * (h div 2) + 1"
    using h by (auto elim: oddE)
  note q = quarters_halves[OF a b rs]
  have sz: "\<forall>r \<in> set (child_rects p). rect_width r = rect_width p div 2 \<and> rect_height r = rect_height p div 2"
    unfolding rs by (simp add: p)
  show ?thesis
    unfolding quarters_def using q sz by (simp add: p)
qed

text \<open>
  C6. In a tree that \<^verbatim>\<open>build\<close> returns, the four children of every node that is not a
  leaf have pairwise disjoint boxes, each of half the width and half the height of the
  parent (rounded down), inside the parent's box, and the pixels of the parent that no
  child covers are exactly its last column when its width is odd and its last row when
  its height is odd.
\<close>

theorem children_quarter_parent:
  "build_root img = Inr t \<Longrightarrow> n \<in> set (nodes (tree_root t)) \<Longrightarrow> \<not> is_leaf n \<Longrightarrow>
     (\<exists>c0 c1 c2 c3. children n = [Some c0, Some c1, Some c2, Some c3] \<and>
        quarters (bbox n) [bbox c0, bbox c1, bbox c2, bbox c3])"
proof -
  assume t: "build_root img = Inr t" and n: "n \<in> set (nodes (tree_root t))"
    and nl: "\<not> is_leaf n"
  note m = build_root_node(1)[OF t n]
  have w: "0 \<le> rect_width (bbox n)" and h: "0 \<le> rect_height (bbox n)"
    using build_makes_keeps(5,6)[OF m] by simp_all
  obtain T0 T1 T2 T3 where ch: "children n = [Some T0, Some T1, Some T2, Some T3]"
    and mk: "build_makes img (child_rects (bbox n) ! 0) (depth n + 1) T0"
    "build_makes img (child_rects (bbox n) ! 1) (depth n + 1) T1"
    "build_makes img (child_rects (bbox n) ! 2) (depth n + 1) T2"
    "build_makes img (child_rects (bbox n) ! 3) (depth n + 1) T3"
    using made_children_split[OF m nl] by metis
  have bb: "bbox T0 = child_rects (bbox n) ! 0" "bbox T1 = child_rects (bbox n) ! 1"
    "bbox T2 = child_rects (bbox n) ! 2" "bbox T3 = child_rects (bbox n) ! 3"
    using mk[THEN build_makes_keeps(1)] by simp_all
  have "[bbox T0, bbox T1, bbox T2, bbox T3] = child_rects (bbox n)"
    unfolding bb by (rule child_rects_list[symmetric])
  then have "quarters (bbox n) [bbox T0, bbox T1, bbox T2, bbox T3]"
    using quarters_child_rects[OF w h] by simp
  then show ?thesis using ch by blast
qed

theorem children_quarter_parent_witness:
  "build_root img_uniform14 = Inr uniform14_tree \<and>
   tree_root uniform14_tree \<in> set (nodes (tree_root uniform14_tree)) \<and>
   \<not> is_leaf (tree_root uniform14_tree) \<and>
   quarters (Rect 0 0 2 2) [Rect 0 0 1 1, Rect 1 0 1 1, Rect 0 1 1 1, Rect 1 1 1 1]"
proof -
  obtain c0 c1 c2 c3 where
    c: "children (tree_root uniform14_tree) = [Some c0, Some c1, Some c2, Some c3]"
    and q: "quarters (bbox (tree_root uniform14_tree)) [bbox c0, bbox c1, bbox c2, bbox c3]"
    using children_quarter_parent[OF build_root_uniform14 nodes_uniform14_root
        uniform14_root_facts(1)] by blast
  have "quarters (Rect 0 0 2 2) [Rect 0 0 1 1, Rect 1 0 1 1, Rect 0 1 1 1, Rect 1 1 1 1]"
    using c q by (auto simp: uniform14_root_facts)
  then show ?thesis
    using uniform14_root_facts(1) build_root_uniform14 nodes_uniform14_root by simp
qed

subsection \<open>Every box lies inside the image\<close>

lemma inside_child_rects:
  assumes "inside img p" and "r \<in> set (child_rects p)"
  shows "inside img r"
proof -
  have w: "0 \<le> rect_width p" and h: "0 \<le> rect_height p"
    using assms(1) by (simp_all add: inside_def)
  have "0 \<le> rect_width p div 2" "2 * (rect_width p div 2) \<le> rect_width p"
    "0 \<le> rect_height p div 2" "2 * (rect_height p div 2) \<le> rect_height p"
    using w h by auto
  then show ?thesis
    using assms unfolding child_rects_nonneg[OF w h] inside_def by auto
qed

lemma build_nodes_inside:
  assumes "build img q md = Inr (T, m)"
  shows "fresh q \<and> inside img (bbox q) \<longrightarrow> (\<forall>n \<in> set (nodes T). inside img (bbox n))"
  using assms
proof (induction rule: build_returns_induct)
  case (leaf q md)
  then show ?case by (auto simp: nodes_leaf)
next
  case (split q md c0 c1 c2 c3 T0 T1 T2 T3 m0 m1 m2 m)
  show ?case
  proof (intro impI ballI)
    fix n
    assume a: "fresh q \<and> inside img (bbox q)"
      and n: "n \<in> set (nodes (set_children q [Some T0, Some T1, Some T2, Some T3]))"
    have fr: "fresh c0" "fresh c1" "fresh c2" "fresh c3"
      using split(2-5) new_Quadrant_is_new is_new_fresh by blast+
    have r: "child_rects (bbox q) ! i \<in> set (child_rects (bbox q))" if "i < 4" for i
      using that by simp
    have ins: "inside img (bbox c0)" "inside img (bbox c1)" "inside img (bbox c2)"
      "inside img (bbox c3)"
      using split(2-5)[THEN new_Quadrant_Inr(1)] inside_child_rects[OF conjunct2[OF a] r]
      by simp_all
    show "inside img (bbox n)"
      using n a split(11-14) fr ins by (auto simp: nodes_split)
  qed
qed

lemma bbox_inside_image:
  assumes "build_root img = Inr t" and "n \<in> set (nodes (tree_root t))"
  shows "inside img (bbox n)"
proof -
  obtain q where q: "new_Quadrant img (Rect 0 0 (int (cols img)) (int (rows img))) 0 = Inr q"
    and b: "build img q 0 = Inr (tree_root t, max_depth t)"
    using build_root_Inr[OF assms(1)] by blast
  have "inside img (bbox q)"
    using new_Quadrant_Inr(1)[OF q] by (simp add: inside_def)
  then show ?thesis
    using build_nodes_inside[OF b] is_new_fresh[OF new_Quadrant_is_new[OF q]] assms(2) by blast
qed

subsection \<open>Narrow regions\<close>

lemma sdiv_2_pos_iff: "0 < (w::int) sdiv 2 \<longleftrightarrow> 2 \<le> w"
  by (auto simp: signed_divide_int_def sgn_if)

lemma child_rects_0:
  "rect_width (child_rects bb ! 0) = rect_width bb sdiv 2"
  "rect_height (child_rects bb ! 0) = rect_height bb sdiv 2"
  by (simp_all add: child_rects_def Let_def)

lemma split_region_narrow:
  assumes "rect_width (bbox q) \<le> 1 \<or> rect_height (bbox q) \<le> 1"
  shows "split_region img q = Inl EmptyRegion"
proof -
  have "\<not> (0 < rect_width (bbox q) sdiv 2 \<and> 0 < rect_height (bbox q) sdiv 2)"
    using assms by (auto simp: sdiv_2_pos_iff)
  then have "pixels (roi img (child_rects (bbox q) ! 0)) = []"
    by (auto simp: pixels_roi_empty_iff child_rects_0)
  then have "new_Quadrant img (child_rects (bbox q) ! 0) (depth q + 1) = Inl EmptyRegion"
    by (rule new_Quadrant_empty)
  then show ?thesis
    by (subst split_region_def, subst child_rects_list) simp
qed

text \<open>
  C2, as stated: a node whose region has width or height 0 or 1 is not split but made a
  leaf, whatever its detail and depth, so that no \<^verbatim>\<open>Quadrant\<close> is constructed over an
  empty region. It fails on the image of one pixel of colour (255, 0, 0): the root, of
  width 1 and height 1, has a detail above the threshold, \<^verbatim>\<open>build\<close> goes on to
  \<^verbatim>\<open>split_region\<close>, which calls the constructor on the empty box \<open>Rect 0 0 0 0\<close>, and
  \<^verbatim>\<open>build\<close> does not return a tree.
\<close>

theorem one_pixel_split_counterexample:
  "new_QuadTree img_blue_pixel = Inr (QuadTree blue_pixel_root 0) \<and>
   rect_width (bbox blue_pixel_root) = 1 \<and> rect_height (bbox blue_pixel_root) = 1 \<and>
   \<not> detail blue_pixel_root < real_of_int DETAIL_THRESHOLD \<and>
   child_rects (bbox blue_pixel_root) ! 0 = Rect 0 0 0 0 \<and>
   new_Quadrant img_blue_pixel (Rect 0 0 0 0) (depth blue_pixel_root + 1) = Inl EmptyRegion \<and>
   split_region img_blue_pixel blue_pixel_root = Inl EmptyRegion \<and>
   build img_blue_pixel blue_pixel_root 0 = Inl EmptyRegion \<and>
   build_root img_blue_pixel = Inl EmptyRegion"
proof -
  have b: "bbox blue_pixel_root = Rect 0 0 1 1" "detail blue_pixel_root = detail_blue_pixel"
    by (simp_all add: blue_pixel_root_def fresh_node_def)
  have s: "split_region img_blue_pixel blue_pixel_root = Inl EmptyRegion"
    by (rule split_region_narrow) (simp add: b)
  show ?thesis
    using s detail_blue_threshold
    by (simp add: new_QuadTree_blue_pixel b child_rects_1x1 new_Quadrant_0x0 build_blue_pixel
        build_root_blue_pixel)
qed

text \<open>
  C2, amended: \<^verbatim>\<open>build\<close> has no guard on the size of a region. Called on a new node of
  width or height at most 1, it makes the node a leaf exactly when the stop rule holds
  (depth at least \<^verbatim>\<open>MAX_DEPTH\<close> or detail below \<^verbatim>\<open>DETAIL_THRESHOLD\<close>); otherwise
  \<^verbatim>\<open>split_region\<close> calls the constructor on an empty region, \<^verbatim>\<open>get_detail\<close> fails there and
  \<^verbatim>\<open>build\<close> fails. So in every tree that \<^verbatim>\<open>build\<close> does return, no node has an empty
  region and every node of width or height at most 1 is a leaf.
\<close>

theorem narrow_node_leaf_or_failure:
  "(build_root img = Inr t \<longrightarrow>
      (\<forall>n \<in> set (nodes (tree_root t)).
         0 < rect_width (bbox n) \<and> 0 < rect_height (bbox n) \<and>
         (rect_width (bbox n) \<le> 1 \<or> rect_height (bbox n) \<le> 1 \<longrightarrow> is_leaf n))) \<and>
   (new_Quadrant img bb d = Inr q \<and> (rect_width bb \<le> 1 \<or> rect_height bb \<le> 1) \<longrightarrow>
      build img q md =
        (if d \<ge> MAX_DEPTH \<or> detail q < real_of_int DETAIL_THRESHOLD
         then Inr (set_is_leaf q True, max md d) else Inl EmptyRegion))"
proof -
  have 1: "0 < rect_width (bbox n) \<and> 0 < rect_height (bbox n) \<and>
         (rect_width (bbox n) \<le> 1 \<or> rect_height (bbox n) \<le> 1 \<longrightarrow> is_leaf n)"
    if t: "build_root img = Inr t" and n: "n \<in> set (nodes (tree_root t))" for n
  proof -
    note m = build_root_node(1)[OF t n]
    have pos: "0 < rect_width (bbox n)" "0 < rect_height (bbox n)"
      using build_makes_keeps(5,6)[OF m] by simp_all
    have "is_leaf n" if narrow: "rect_width (bbox n) \<le> 1 \<or> rect_height (bbox n) \<le> 1"
    proof (rule ccontr)
      assume nl: "\<not> is_leaf n"
      obtain T0 T1 T2 T3 where
        mk: "build_makes img (child_rects (bbox n) ! 0) (depth n + 1) T0"
        using made_children_split[OF m nl] by metis
      have "0 < rect_width (bbox n) sdiv 2 \<and> 0 < rect_height (bbox n) sdiv 2"
        using build_makes_keeps(5,6)[OF mk] by (simp add: child_rects_0)
      then show False using narrow by (auto simp: sdiv_2_pos_iff)
    qed
    then show ?thesis using pos by blast
  qed
  have 2: "build img q md =
        (if d \<ge> MAX_DEPTH \<or> detail q < real_of_int DETAIL_THRESHOLD
         then Inr (set_is_leaf q True, max md d) else Inl EmptyRegion)"
    if q: "new_Quadrant img bb d = Inr q"
      and narrow: "rect_width bb \<le> 1 \<or> rect_height bb \<le> 1"
  proof -
    have k: "bbox q = bb" "depth q = d" using new_Quadrant_Inr(1,2)[OF q] by simp_all
    show ?thesis
    proof (cases "d \<ge> MAX_DEPTH \<or> detail q < real_of_int DETAIL_THRESHOLD")
      case True
      then show ?thesis using build_leaf[of q img md] by (simp add: k)
    next
      case False
      have "split_region img q = Inl EmptyRegion"
        using narrow by (intro split_region_narrow) (simp add: k)
      then show ?thesis using False by (subst build.simps) (simp add: k)
    qed
  qed
  show ?thesis using 1 2 by blast
qed

theorem narrow_node_leaf_or_failure_witness:
  "build_root img_uniform14 = Inr uniform14_tree \<and>
   leaf_node (Rect 1 1 1 1) 1 (Vec3b 14 14 14) detail_one_14
     \<in> set (nodes (tree_root uniform14_tree)) \<and>
   rect_width (Rect 1 1 1 1) \<le> 1 \<and>
   is_leaf (leaf_node (Rect 1 1 1 1) 1 (Vec3b 14 14 14) detail_one_14) \<and>
   new_Quadrant img_blue_pixel (Rect 0 0 1 1) 0 = Inr blue_pixel_root \<and>
   \<not> (0 \<ge> MAX_DEPTH \<or> detail blue_pixel_root < real_of_int DETAIL_THRESHOLD) \<and>
   build img_blue_pixel blue_pixel_root 0 = Inl EmptyRegion"
proof -
  have q: "new_Quadrant img_blue_pixel (Rect 0 0 1 1) 0 = Inr blue_pixel_root"
    by (simp add: new_Quadrant_blue_pixel blue_pixel_root_def)
  have ns: "\<not> (0 \<ge> MAX_DEPTH \<or> detail blue_pixel_root < real_of_int DETAIL_THRESHOLD)"
    using detail_blue_threshold by (simp add: blue_pixel_root_def fresh_node_def MAX_DEPTH_def)
  have 1: "is_leaf (leaf_node (Rect 1 1 1 1) 1 (Vec3b 14 14 14) detail_one_14)"
    using narrow_node_leaf_or_failure[of img_uniform14 uniform14_tree]
      build_root_uniform14 nodes_uniform14_leaf by simp
  have 2: "build img_blue_pixel blue_pixel_root 0 = Inl EmptyRegion"
    using narrow_node_leaf_or_failure[of img_blue_pixel _ "Rect 0 0 1 1" 0 blue_pixel_root 0]
      q ns by simp
  show ?thesis
    using 1 2 q ns build_root_uniform14 nodes_uniform14_leaf by simp
qed

section \<open>Rendering and teardown of a built tree\<close>

lemma draw_children_non_null:
  "\<forall>c \<in> set cs. c \<noteq> None \<Longrightarrow> draw_children canvas cs target show_lines = Inr canvas"
  by (induction cs) simp_all

lemma free_children_non_null:
  "\<forall>c \<in> set cs. c \<noteq> None \<Longrightarrow> free_children cs = Inr []"
  by (induction cs) simp_all

lemma made_children_non_null:
  assumes "build_makes img r d n" and "\<not> is_leaf n"
  shows "\<forall>c \<in> set (children n). c \<noteq> None"
proof -
  obtain T0 T1 T2 T3 where "children n = [Some T0, Some T1, Some T2, Some T3]"
    using made_children_split[OF assms] by metis
  then show ?thesis by simp
qed

lemma claimed_draw_uniform14:
  "pixel_at (claimed_draw (zeros 2 2) (tree_root uniform14_tree) 1 False) 0 1 = Vec3b 14 14 14"
  by (simp add: uniform14_tree_def leaf_node_def draw_block_def rectangle_filled_def zeros_def
      in_rect_def)

lemma claimed_draw_differs:
  "zeros 2 2 \<noteq> claimed_draw (zeros 2 2) (tree_root uniform14_tree) 1 False"
proof
  assume "zeros 2 2 = claimed_draw (zeros 2 2) (tree_root uniform14_tree) 1 False"
  then have "pixel_at (zeros 2 2) 0 1 = Vec3b 14 14 14"
    using claimed_draw_uniform14 by simp
  then show False by (simp add: zeros_def)
qed

text \<open>
  C1. What \<^verbatim>\<open>draw_quadrants\<close> does on a node of a tree that \<^verbatim>\<open>build\<close> returned: it fills the
  box when the node is a leaf or the target depth is 0 (the test compares \<^verbatim>\<open>is_leaf\<close>,
  not the depth of the node, with the target), and otherwise it leaves the image as it
  is, since the loop calls itself only for a null child and a node that is not a leaf
  has none.
\<close>

theorem draw_fills_leaf_or_depth_zero:
  "build_root img = Inr t \<Longrightarrow> n \<in> set (nodes (tree_root t)) \<Longrightarrow>
     draw_quadrants canvas (Some n) target show_lines =
       Inr (if is_leaf n \<or> target = 0 then draw_block canvas n show_lines else canvas)"
proof -
  assume t: "build_root img = Inr t" and n: "n \<in> set (nodes (tree_root t))"
  show ?thesis
  proof (cases "is_leaf n")
    case True
    then show ?thesis by simp
  next
    case False
    have "draw_children canvas (children n) target show_lines = Inr canvas"
      using made_children_non_null[OF build_root_node(1)[OF t n] False]
      by (rule draw_children_non_null)
    then show ?thesis using False by auto
  qed
qed

theorem draw_fills_leaf_or_depth_zero_witness:
  "build_root img_uniform14 = Inr uniform14_tree \<and>
   tree_root uniform14_tree \<in> set (nodes (tree_root uniform14_tree)) \<and>
   \<not> is_leaf (tree_root uniform14_tree) \<and>
   depth (tree_root uniform14_tree) \<noteq> 1 \<and>
   draw_quadrants (zeros 2 2) (Some (tree_root uniform14_tree)) 1 False = Inr (zeros 2 2) \<and>
   create_image uniform14_tree 1 False = Inr (zeros 2 2) \<and>
   create_image uniform14_tree 1 False
     \<noteq> Inr (claimed_draw (zeros 2 2) (tree_root uniform14_tree) 1 False)"
proof -
  have d: "draw_quadrants (zeros 2 2) (Some (tree_root uniform14_tree)) 1 False = Inr (zeros 2 2)"
    using draw_fills_leaf_or_depth_zero[OF build_root_uniform14 nodes_uniform14_root,
        of "zeros 2 2" 1 False]
    by (simp add: uniform14_root_facts)
  then have c: "create_image uniform14_tree 1 False = Inr (zeros 2 2)"
    by (simp add: create_image_def uniform14_root_facts)
  show ?thesis
    using c d uniform14_root_facts(1,2) build_root_uniform14 nodes_uniform14_root
      claimed_draw_differs by simp
qed

subsection \<open>Teardown\<close>

text \<open>
  C3. What the destructor does on a tree that \<^verbatim>\<open>build\<close> returned: when the root is a
  leaf, it calls \<^verbatim>\<open>free_quadtree\<close> on a null child; otherwise every child is non-null,
  the loop skips them all, and no node is released.
\<close>

theorem teardown_releases_nothing:
  "build_root img = Inr t \<Longrightarrow>
     destroy_QuadTree t = (if is_leaf (tree_root t) then Inl NullDereference else Inr [])"
proof -
  assume t: "build_root img = Inr t"
  note m = build_root_node(1)[OF t root_in_nodes]
  show ?thesis
  proof (cases "is_leaf (tree_root t)")
    case True
    then show ?thesis
      using made_children_leaf[OF m True] by (simp add: destroy_QuadTree_def)
  next
    case False
    have "free_children (children (tree_root t)) = Inr []"
      using made_children_non_null[OF m False] by (rule free_children_non_null)
    then show ?thesis using False by (simp add: destroy_QuadTree_def)
  qed
qed

theorem teardown_releases_nothing_witness:
  "build_root img_uniform14 = Inr uniform14_tree \<and>
   \<not> is_leaf (tree_root uniform14_tree) \<and>
   length (nodes (tree_root uniform14_tree)) = 5 \<and>
   destroy_QuadTree uniform14_tree = Inr [] \<and>
   build_root img_black_pixel = Inr black_pixel_tree \<and>
   is_leaf (tree_root black_pixel_tree) \<and>
   destroy_QuadTree black_pixel_tree = Inl NullDereference"
proof -
  have l: "length (nodes (tree_root uniform14_tree)) = 5"
    by (simp add: uniform14_tree_def leaf_node_def)
  have b: "is_leaf (tree_root black_pixel_tree)"
    by (simp add: black_pixel_tree_def)
  show ?thesis
    using teardown_releases_nothing[OF build_root_uniform14]
      teardown_releases_nothing[OF build_root_black_pixel]
      uniform14_root_facts(1) l b build_root_uniform14 build_root_black_pixel by simp
qed

subsection \<open>A zero total\<close>

text \<open>
  C9, as stated: \<^verbatim>\<open>weighted_average\<close> returns 0 for a histogram whose total is zero, so a
  region without pixels has detail 0. The second part fails: on a matrix without pixels
  \<^verbatim>\<open>get_detail\<close> fails before any histogram is computed.
\<close>

theorem empty_region_detail_counterexample:
  "pixels (zeros 0 3) = [] \<and> get_detail (zeros 0 3) = Inl EmptyRegion \<and>
   get_detail (zeros 0 3) \<noteq> Inr 0"
  by (simp add: pixels_def zeros_def get_detail_def)

text \<open>
  C9, amended: when the bins of a histogram add up to zero, \<^verbatim>\<open>weighted_average\<close> returns
  0, the division being guarded by \<^verbatim>\<open>total > 0\<close>; a region without pixels does not get
  that far, \<^verbatim>\<open>get_detail\<close> fails on it.
\<close>

theorem zero_total_gives_zero:
  "((\<Sum>i < sz. sint (hist ! i)) = 0 \<longrightarrow> weighted_average hist sz = 0) \<and>
   (pixels img = [] \<longrightarrow> get_detail img = Inl EmptyRegion)"
proof (intro conjI impI)
  assume "(\<Sum>i < sz. sint (hist ! i)) = 0"
  then show "weighted_average hist sz = 0"
    by (rule weighted_average_zero)
next
  assume "pixels img = []"
  then show "get_detail img = Inl EmptyRegion"
    by (simp add: get_detail_def)
qed

theorem zero_total_gives_zero_witness:
  "(\<Sum>i < 4. sint ([0, 0, 0, 0 :: 32 word] ! i)) = 0 \<and>
   weighted_average [0, 0, 0, 0] 4 = 0 \<and>
   pixels (zeros 0 3) = [] \<and> get_detail (zeros 0 3) = Inl EmptyRegion"
proof -
  have h: "(\<Sum>i < 4. sint ([0, 0, 0, 0 :: 32 word] ! i)) = 0"
    by (simp add: lessThan_nat_numeral lessThan_Suc)
  have p: "pixels (zeros 0 3) = []"
    by (simp add: pixels_def zeros_def)
  show ?thesis
    using h p zero_total_gives_zero[where sz = 4 and hist = "[0, 0, 0, 0]" and img = "zeros 0 3"]
    by blast
qed

end
